theory Spec2Isabelle
  imports Main "HOL-Library.Word"
begin

unbundle bit_operations_syntax

section \<open>Bytes, typed arrays and little-endian DataView access\<close>

text \<open>
  A \<^verbatim>\<open>Uint8Array\<close> is modelled by the list of its bytes, a view
  (\<^verbatim>\<open>subarray\<close>) by the list of the bytes it shows. A JavaScript \<^verbatim>\<open>number\<close>
  that holds a size, an offset or a length is a natural number; the values are exact
  below \<open>2^53\<close>, the range in which a \<^verbatim>\<open>number\<close> is an exact integer.
\<close>

type_synonym byte = "8 word"
type_synonym chunk = "byte list"

text \<open>The errors the library throws, under the names the specification gives them.\<close>

datatype error =
    UnexpectedEnd
  | BadSignature
  | UnsupportedVersion
  | UnsupportedFlag
  | UnknownCompressionMethod
  | InvalidExtraField
  | BodyAlreadyUsed
  | BodyNotConsumed
  | RangeError
  | FilenameTooLong
  | TypeError
  | DecompressionError
  | AbortError

text \<open>
  \<open>le_bytes k v\<close>: the \<open>k\<close> bytes a DataView setter with \<^verbatim>\<open>littleEndian = true\<close>
  stores for the unsigned value \<open>v\<close> (the value is reduced modulo \<open>2^(8k)\<close>, as
  \<^verbatim>\<open>setUint16\<close>, \<^verbatim>\<open>setUint32\<close> and \<^verbatim>\<open>setBigUint64\<close> do).
  \<open>le_val bs\<close>: the unsigned value a little-endian getter reads from the bytes \<open>bs\<close>.
\<close>

fun le_bytes :: "nat \<Rightarrow> nat \<Rightarrow> byte list" where
  "le_bytes 0 v = []"
| "le_bytes (Suc k) v = word_of_nat v # le_bytes k (v div 256)"

fun le_val :: "byte list \<Rightarrow> nat" where
  "le_val [] = 0"
| "le_val (b # bs) = unat b + 256 * le_val bs"

text \<open>
  The setters write into an array at an offset and keep its length; every call in the
  writer is at an offset inside the array it was allocated for.
\<close>

definition setBytes :: "nat \<Rightarrow> byte list \<Rightarrow> byte list \<Rightarrow> byte list" where
  "setBytes off src arr = take off arr @ src @ drop (off + length src) arr"

definition setUint8 :: "nat \<Rightarrow> nat \<Rightarrow> byte list \<Rightarrow> byte list" where
  "setUint8 off v arr = setBytes off (le_bytes 1 v) arr"

definition setUint16 :: "nat \<Rightarrow> nat \<Rightarrow> byte list \<Rightarrow> byte list" where
  "setUint16 off v arr = setBytes off (le_bytes 2 v) arr"

definition setUint32 :: "nat \<Rightarrow> nat \<Rightarrow> byte list \<Rightarrow> byte list" where
  "setUint32 off v arr = setBytes off (le_bytes 4 v) arr"

definition setBigUint64 :: "nat \<Rightarrow> nat \<Rightarrow> byte list \<Rightarrow> byte list" where
  "setBigUint64 off v arr = setBytes off (le_bytes 8 v) arr"

text \<open>
  \<^verbatim>\<open>ToUint32\<close> of an integral \<^verbatim>\<open>number\<close>: the value modulo \<open>2^32\<close>.
\<close>

definition ToUint32 :: "int \<Rightarrow> nat" where
  "ToUint32 v = nat (v mod 2 ^ 32)"

text \<open>
  The getters. A DataView getter throws \<^verbatim>\<open>RangeError\<close> when the bytes it asks for
  are not all inside the view. \<open>readUint k off arr\<close> is the value of the \<open>k\<close> bytes at
  \<open>off\<close>, for the places where the code has checked the length of the array before
  it reads.
\<close>

definition readUint :: "nat \<Rightarrow> nat \<Rightarrow> byte list \<Rightarrow> nat" where
  "readUint k off arr = le_val (take k (drop off arr))"

definition getUint :: "nat \<Rightarrow> nat \<Rightarrow> byte list \<Rightarrow> error + nat" where
  "getUint k off arr =
     (if off + k \<le> length arr then Inr (readUint k off arr) else Inl RangeError)"

definition getUint8 :: "nat \<Rightarrow> byte list \<Rightarrow> error + nat" where
  "getUint8 off arr = getUint 1 off arr"

definition getUint16 :: "nat \<Rightarrow> byte list \<Rightarrow> error + nat" where
  "getUint16 off arr = getUint 2 off arr"

definition getUint32 :: "nat \<Rightarrow> byte list \<Rightarrow> error + nat" where
  "getUint32 off arr = getUint 4 off arr"

definition getBigUint64 :: "nat \<Rightarrow> byte list \<Rightarrow> error + nat" where
  "getBigUint64 off arr = getUint 8 off arr"

definition toInt32 :: "nat \<Rightarrow> int" where
  "toInt32 u = (if u < 2 ^ 31 then int u else int u - 2 ^ 32)"

definition getInt32 :: "nat \<Rightarrow> byte list \<Rightarrow> error + int" where
  "getInt32 off arr = (case getUint 4 off arr of Inl e \<Rightarrow> Inl e | Inr u \<Rightarrow> Inr (toInt32 u))"

subsection \<open>Properties of the little-endian codec\<close>

lemma length_le_bytes [simp]: "length (le_bytes k v) = k"
  by (induction k arbitrary: v) auto

lemma le_val_le_bytes: "le_val (le_bytes k v) = v mod 256 ^ k"
proof (induction k arbitrary: v)
  case 0
  then show ?case by simp
next
  case (Suc k)
  have "unat (word_of_nat v :: byte) = v mod 256"
    by (simp add: unat_of_nat)
  then have "le_val (le_bytes (Suc k) v) = v mod 256 + 256 * ((v div 256) mod 256 ^ k)"
    using Suc.IH by simp
  also have "\<dots> = v mod 256 ^ Suc k"
    by (simp add: mod_mult2_eq)
  finally show ?case .
qed

lemma le_val_bound: "le_val bs < 256 ^ length bs"
proof (induction bs)
  case Nil
  then show ?case by simp
next
  case (Cons b bs)
  have "unat b < 256"
    using unsigned_less [of b] by simp
  with Cons show ?case by simp
qed

section \<open>ExactBytesTransformStream\<close>

text \<open>
  \<^verbatim>\<open>stream_utils/exact_bytes_transform_stream.ts\<close>. The transformer keeps the
  private counter \<^verbatim>\<open>#read\<close>. \<open>ExactBytes_transform\<close> is its \<^verbatim>\<open>transform\<close>
  callback (the new counter and the chunk it enqueues, or the error it throws),
  \<open>ExactBytes_flush\<close> its \<^verbatim>\<open>flush\<close> callback. \<open>ExactBytes_run\<close> pipes a list of
  chunks through the stream: the chunks enqueued on the readable side, and the error
  the stream ends with, if any.
\<close>

definition ExactBytes_transform :: "nat \<Rightarrow> nat \<Rightarrow> chunk \<Rightarrow> error + (nat \<times> chunk)" where
  "ExactBytes_transform sz rd c =
     (if rd + length c > sz then Inl RangeError else Inr (rd + length c, c))"

definition ExactBytes_flush :: "nat \<Rightarrow> nat \<Rightarrow> error option" where
  "ExactBytes_flush sz rd = (if rd < sz then Some RangeError else None)"

fun ExactBytes_run :: "nat \<Rightarrow> nat \<Rightarrow> chunk list \<Rightarrow> chunk list \<times> error option" where
  "ExactBytes_run sz rd [] = ([], ExactBytes_flush sz rd)"
| "ExactBytes_run sz rd (c # cs) =
     (case ExactBytes_transform sz rd c of
        Inl e \<Rightarrow> ([], Some e)
      | Inr (rd', out) \<Rightarrow>
          (case ExactBytes_run sz rd' cs of (outs, r) \<Rightarrow> (out # outs, r)))"

definition ExactBytesTransformStream :: "nat \<Rightarrow> chunk list \<Rightarrow> chunk list \<times> error option" where
  "ExactBytesTransformStream sz chunks = ExactBytes_run sz 0 chunks"

text \<open>The number of bytes in a list of chunks.\<close>

definition total :: "chunk list \<Rightarrow> nat" where
  "total chunks = length (concat chunks)"

subsection \<open>Properties of the exact-bytes stream\<close>

lemma total_Nil [simp]: "total [] = 0"
  by (simp add: total_def)

lemma total_Cons [simp]: "total (c # cs) = length c + total cs"
  by (simp add: total_def)

lemma total_append [simp]: "total (xs @ ys) = total xs + total ys"
  by (simp add: total_def)

lemma ExactBytes_run_exact:
  "rd + total chunks = sz \<Longrightarrow> ExactBytes_run sz rd chunks = (chunks, None)"
  by (induction chunks arbitrary: rd)
     (auto simp: ExactBytes_transform_def ExactBytes_flush_def)

lemma ExactBytes_run_short:
  "rd + total chunks < sz \<Longrightarrow> ExactBytes_run sz rd chunks = (chunks, Some RangeError)"
  by (induction chunks arbitrary: rd)
     (auto simp: ExactBytes_transform_def ExactBytes_flush_def)

lemma ExactBytes_run_exceed:
  "rd + total pre \<le> sz \<Longrightarrow> sz < rd + total pre + length c \<Longrightarrow>
   ExactBytes_run sz rd (pre @ c # post) = (pre, Some RangeError)"
  by (induction pre arbitrary: rd)
     (auto simp: ExactBytes_transform_def)

lemma ExactBytes_run_ok_iff:
  "rd \<le> sz \<Longrightarrow> snd (ExactBytes_run sz rd chunks) = None \<longleftrightarrow> rd + total chunks = sz"
proof (induction chunks arbitrary: rd)
  case Nil
  then show ?case by (auto simp: ExactBytes_flush_def)
next
  case (Cons c cs)
  show ?case
  proof (cases "rd + length c > sz")
    case True
    then show ?thesis by (simp add: ExactBytes_transform_def)
  next
    case False
    then have "rd + length c \<le> sz" by simp
    from Cons.IH [OF this] False show ?thesis
      by (auto simp: ExactBytes_transform_def split: prod.splits)
  qed
qed

lemma ExactBytes_run_ok_out:
  "rd \<le> sz \<Longrightarrow> snd (ExactBytes_run sz rd chunks) = None \<Longrightarrow>
   fst (ExactBytes_run sz rd chunks) = chunks"
  by (simp add: ExactBytes_run_ok_iff ExactBytes_run_exact)

subsection \<open>Claims about the exact-bytes stream\<close>

text \<open>
  C2, as amended. The stream with parameter \<open>size\<close> is the identity on every input
  whose total length is exactly \<open>size\<close>. It fails with RangeError at the first chunk
  that would make the running total exceed \<open>size\<close>, after passing through the chunks
  before that chunk and none of the bytes of that chunk. It fails with RangeError at
  the end of the input when the total received is less than \<open>size\<close>, after passing
  through every chunk.
\<close>

theorem C2_exact_bytes:
  "(total chunks = sz \<longrightarrow> ExactBytesTransformStream sz chunks = (chunks, None)) \<and>
   (total pre \<le> sz \<and> sz < total pre + length c \<longrightarrow>
      ExactBytesTransformStream sz (pre @ c # post) = (pre, Some RangeError)) \<and>
   (total chunks < sz \<longrightarrow>
      ExactBytesTransformStream sz chunks = (chunks, Some RangeError))"
  unfolding ExactBytesTransformStream_def
  using ExactBytes_run_exact [of 0 chunks sz] ExactBytes_run_short [of 0 chunks sz]
    ExactBytes_run_exceed [of 0 pre sz c post]
  by simp

theorem C2_exact_bytes_witness:
  "ExactBytesTransformStream 9 [[1, 2, 3], [4, 5, 6], [7, 8, 9]]
     = ([[1, 2, 3], [4, 5, 6], [7, 8, 9]], None) \<and>
   ExactBytesTransformStream 8 ([[1, 2, 3], [4, 5, 6]] @ [7, 8, 9] # [])
     = ([[1, 2, 3], [4, 5, 6]], Some RangeError) \<and>
   ExactBytesTransformStream 10 [[1, 2, 3], [4, 5, 6], [7, 8, 9]]
     = ([[1, 2, 3], [4, 5, 6], [7, 8, 9]], Some RangeError)"
  using C2_exact_bytes [of "[[1, 2, 3], [4, 5, 6], [7, 8, 9]]" 9 "[]" "[]" "[]"]
    C2_exact_bytes [of "[]" 8 "[[1, 2, 3], [4, 5, 6]]" "[7, 8, 9]" "[]"]
    C2_exact_bytes [of "[[1, 2, 3], [4, 5, 6], [7, 8, 9]]" 10 "[]" "[]" "[]"]
  by simp

text \<open>
  C2 as stated fails: with \<open>size = 8\<close> and the chunks \<open>[1,2,3]\<close>, \<open>[4,5,6]\<close>,
  \<open>[7,8,9]\<close> the first byte that exceeds the size is the ninth, yet the bytes 7 and 8
  before it are not passed through: the whole third chunk is rejected, and the output
  is the first six bytes, not the first eight.
\<close>

theorem C2_exact_bytes_counterexample:
  "ExactBytesTransformStream 8 [[1, 2, 3], [4, 5, 6], [7, 8, 9]]
     = ([[1, 2, 3], [4, 5, 6]], Some RangeError) \<and>
   concat (fst (ExactBytesTransformStream 8 [[1, 2, 3], [4, 5, 6], [7, 8, 9]]))
     \<noteq> take 8 (concat [[1, 2, 3], [4, 5, 6], [7, 8, 9]])"
  by (simp add: ExactBytesTransformStream_def ExactBytes_transform_def)

section \<open>The partial stream reader\<close>

text \<open>
  \<^verbatim>\<open>partial_reader.ts\<close>: the abstract class \<^verbatim>\<open>PartialReader\<close> and its two
  subclasses. The upstream readers are the platform's; they are modelled by what is
  left for them to deliver.

  \<^item> A \<^verbatim>\<open>ReadableStreamDefaultReader\<close> is the list of the chunks it has yet to
    deliver: \<^verbatim>\<open>read()\<close> returns the next chunk (a default stream may hold chunks of
    any length, the empty chunk included), and \<^verbatim>\<open>done\<close> once the list is empty.
  \<^item> A \<^verbatim>\<open>ReadableStreamBYOBReader\<close> is the bytes it has yet to deliver
    (\<open>pending\<close>) and, for each coming call, how many bytes the source has ready
    (\<open>grants\<close>; once the list is used up every call is served in full).
    \<^verbatim>\<open>read(view)\<close> rejects with a TypeError for a view of length 0, returns
    \<^verbatim>\<open>done\<close> when nothing is pending, and otherwise fills the view with at least
    one and at most \<^verbatim>\<open>view.byteLength\<close> of the pending bytes.

  Buffers are modelled by their contents. \<^verbatim>\<open>read(view)\<close> of a BYOB reader transfers
  the buffer of the view to the stream, which leaves \<^verbatim>\<open>view.buffer\<close> detached, and
  the caller goes on with the buffer of the view it gets back. That makes a difference
  in one place, the end of the stream in \<^verbatim>\<open>BYOBPartialReader.readAmount\<close>, and is
  modelled there.
\<close>

datatype 'a ReadableStreamReadResult = Done | Value 'a

record BYOBReader =
  pending :: "byte list"
  grants :: "nat list"

datatype PartialReader =
    DefaultPartialReader (reader: "chunk list") (leftOvers: "chunk option")
  | BYOBPartialReader (byob_reader: BYOBReader)

fun default_read :: "chunk list \<Rightarrow> chunk ReadableStreamReadResult \<times> chunk list" where
  "default_read [] = (Done, [])"
| "default_read (c # cs) = (Value c, cs)"

definition byob_read :: "nat \<Rightarrow> BYOBReader \<Rightarrow> error + (chunk ReadableStreamReadResult \<times> BYOBReader)" where
  "byob_read viewLen r =
     (if viewLen = 0 then Inl TypeError
      else if pending r = [] then Inr (Done, r)
      else
        let k = (case grants r of
                   [] \<Rightarrow> min viewLen (length (pending r))
                 | g # _ \<Rightarrow> max 1 (min g (min viewLen (length (pending r)))))
        in Inr (Value (take k (pending r)),
                \<lparr>pending = drop k (pending r), grants = tl (grants r)\<rparr>))"

text \<open>
  \<^verbatim>\<open>limitedRead(maxSize)\<close>. The default variant serves the leftover first, otherwise
  one upstream read, and keeps what is beyond \<open>maxSize\<close> as the new leftover
  (\<open>limit_value\<close> is the code after the \<^verbatim>\<open>if (this.#leftOvers)\<close> statement). The
  BYOB variant is one upstream read into a fresh view of \<open>maxSize\<close> bytes.
\<close>

definition limit_value :: "nat \<Rightarrow> chunk \<Rightarrow> chunk list \<Rightarrow> chunk ReadableStreamReadResult \<times> PartialReader" where
  "limit_value maxSize v rd =
     (if length v > maxSize
      then (Value (take maxSize v), DefaultPartialReader rd (Some (drop maxSize v)))
      else (Value v, DefaultPartialReader rd None))"

fun limitedRead :: "nat \<Rightarrow> PartialReader \<Rightarrow> error + (chunk ReadableStreamReadResult \<times> PartialReader)" where
  "limitedRead maxSize (DefaultPartialReader rd (Some v)) = Inr (limit_value maxSize v rd)"
| "limitedRead maxSize (DefaultPartialReader rd None) =
     (case default_read rd of
        (Done, rd') \<Rightarrow> Inr (Done, DefaultPartialReader rd' None)
      | (Value v, rd') \<Rightarrow> Inr (limit_value maxSize v rd'))"
| "limitedRead maxSize (BYOBPartialReader r) =
     (case byob_read maxSize r of
        Inl e \<Rightarrow> Inl e
      | Inr (res, r') \<Rightarrow> Inr (res, BYOBPartialReader r'))"

text \<open>
  The bytes a reader has yet to deliver, and a measure that every read of at least one
  requested byte decreases (an empty chunk is consumed without delivering a byte).
\<close>

fun remaining :: "PartialReader \<Rightarrow> byte list" where
  "remaining (DefaultPartialReader rd lo) = (case lo of None \<Rightarrow> [] | Some v \<Rightarrow> v) @ concat rd"
| "remaining (BYOBPartialReader r) = pending r"

fun mass :: "PartialReader \<Rightarrow> nat" where
  "mass (DefaultPartialReader rd lo) =
     (case lo of None \<Rightarrow> 0 | Some v \<Rightarrow> Suc (length v)) + sum_list (map (\<lambda>c. Suc (length c)) rd)"
| "mass (BYOBPartialReader r) = length (pending r)"

lemma default_read_Done [simp]: "default_read rd = (Done, rd') \<longleftrightarrow> rd = [] \<and> rd' = []"
  by (cases rd) auto

lemma default_read_Value [simp]: "default_read rd = (Value c, rd') \<longleftrightarrow> rd = c # rd'"
  by (cases rd) auto

lemma limitedRead_mass_less:
  "limitedRead maxSize pr = Inr (Value v, pr') \<Longrightarrow> 0 < maxSize \<Longrightarrow> mass pr' < mass pr"
  by (cases "(maxSize, pr)" rule: limitedRead.cases)
     (auto simp: limit_value_def byob_read_def Let_def
           split: if_splits list.splits sum.splits prod.splits ReadableStreamReadResult.splits)

lemma limitedRead_mass_le:
  "limitedRead maxSize pr = Inr (res, pr') \<Longrightarrow> mass pr' \<le> mass pr"
  by (cases "(maxSize, pr)" rule: limitedRead.cases)
     (auto simp: limit_value_def byob_read_def Let_def
           split: if_splits list.splits sum.splits prod.splits ReadableStreamReadResult.splits)

lemma byob_read_pending_less:
  "byob_read viewLen r = Inr (Value v, r') \<Longrightarrow> length (pending r') < length (pending r)"
  by (auto simp: byob_read_def Let_def split: if_splits list.splits)

text \<open>
  \<^verbatim>\<open>PartialReader.readAmount(size)\<close>, the base class method, written against
  \<^verbatim>\<open>limitedRead\<close>. \<open>base_readAmount_loop\<close> is its \<^verbatim>\<open>while\<close> loop over the
  buffer \<^verbatim>\<open>result\<close> and the counter \<^verbatim>\<open>bytesRead\<close>.
\<close>

function base_readAmount_loop ::
  "nat \<Rightarrow> byte list \<Rightarrow> nat \<Rightarrow> PartialReader \<Rightarrow> error + (chunk \<times> PartialReader)" where
  "base_readAmount_loop sz result bytesRead pr =
     (if bytesRead < sz then
        (case limitedRead (sz - bytesRead) pr of
           Inl e \<Rightarrow> Inl e
         | Inr (Done, pr') \<Rightarrow> Inr (take bytesRead result, pr')
         | Inr (Value v, pr') \<Rightarrow>
             base_readAmount_loop sz (setBytes bytesRead v result) (bytesRead + length v) pr')
      else Inr (result, pr))"
  by pat_completeness auto
termination
  by (relation "measure (\<lambda>(sz, result, bytesRead, pr). mass pr)")
     (auto dest: limitedRead_mass_less)

declare base_readAmount_loop.simps [simp del]

definition base_readAmount :: "nat \<Rightarrow> PartialReader \<Rightarrow> error + (chunk \<times> PartialReader)" where
  "base_readAmount sz pr =
     (case limitedRead sz pr of
        Inl e \<Rightarrow> Inl e
      | Inr (Done, pr') \<Rightarrow> Inr ([], pr')
      | Inr (Value firstPart, pr') \<Rightarrow>
          (if length firstPart < sz
           then base_readAmount_loop sz (setBytes 0 firstPart (replicate sz 0)) (length firstPart) pr'
           else Inr (firstPart, pr')))"

text \<open>
  \<^verbatim>\<open>BYOBPartialReader.readAmount(size)\<close>: the loop over the buffer and \<^verbatim>\<open>bytesRead\<close>.
  After a read that returned bytes the loop goes on with a view of the buffer returned
  (\<^verbatim>\<open>result.value.buffer\<close>). After a read that returned \<^verbatim>\<open>done\<close> it builds its
  result with \<^verbatim>\<open>new Uint8Array(view.buffer, 0, bytesRead)\<close>, on the buffer of the
  view it passed to \<^verbatim>\<open>read\<close>; that buffer is detached by then, and the constructor
  throws a TypeError. So the method throws when the stream ends before \<open>size\<close>
  bytes were read, where the method of the base class returns the bytes read so far.
\<close>

function byob_readAmount_loop ::
  "nat \<Rightarrow> byte list \<Rightarrow> nat \<Rightarrow> BYOBReader \<Rightarrow> error + (chunk \<times> BYOBReader)" where
  "byob_readAmount_loop sz buffer bytesRead r =
     (if bytesRead < sz then
        (case byob_read (sz - bytesRead) r of
           Inl e \<Rightarrow> Inl e
         | Inr (Done, r') \<Rightarrow> Inl TypeError
         | Inr (Value v, r') \<Rightarrow>
             byob_readAmount_loop sz (setBytes bytesRead v buffer) (bytesRead + length v) r')
      else Inr (buffer, r))"
  by pat_completeness auto
termination
  by (relation "measure (\<lambda>(sz, buffer, bytesRead, r). length (pending r))")
     (auto dest: byob_read_pending_less)

declare byob_readAmount_loop.simps [simp del]

definition byob_readAmount :: "nat \<Rightarrow> BYOBReader \<Rightarrow> error + (chunk \<times> BYOBReader)" where
  "byob_readAmount sz r = byob_readAmount_loop sz (replicate sz 0) 0 r"

fun readAmount :: "nat \<Rightarrow> PartialReader \<Rightarrow> error + (chunk \<times> PartialReader)" where
  "readAmount sz (DefaultPartialReader rd lo) = base_readAmount sz (DefaultPartialReader rd lo)"
| "readAmount sz (BYOBPartialReader r) =
     (case byob_readAmount sz r of
        Inl e \<Rightarrow> Inl e
      | Inr (data, r') \<Rightarrow> Inr (data, BYOBPartialReader r'))"

text \<open>\<^verbatim>\<open>readAmountStrict(size)\<close>, shared by both variants.\<close>

definition readAmountStrict :: "nat \<Rightarrow> PartialReader \<Rightarrow> error + (chunk \<times> PartialReader)" where
  "readAmountStrict sz pr =
     (case readAmount sz pr of
        Inl e \<Rightarrow> Inl e
      | Inr (data, pr') \<Rightarrow> if length data < sz then Inl UnexpectedEnd else Inr (data, pr'))"

text \<open>
  \<^verbatim>\<open>skipAmount(size)\<close>: the base class loop over \<^verbatim>\<open>bytesLeft\<close>, and the BYOB
  variant's loop, which reads into a scratch buffer of \<open>min size 2048\<close> bytes
  (\<open>bufLen\<close>) cut down to \<^verbatim>\<open>bytesLeft\<close> (\<open>trashLen\<close> is the length of the view
  \<^verbatim>\<open>trashBuffer\<close>).
\<close>

function base_skipAmount :: "nat \<Rightarrow> PartialReader \<Rightarrow> error + PartialReader" where
  "base_skipAmount bytesLeft pr =
     (if bytesLeft > 0 then
        (case limitedRead bytesLeft pr of
           Inl e \<Rightarrow> Inl e
         | Inr (Done, pr') \<Rightarrow> Inr pr'
         | Inr (Value v, pr') \<Rightarrow> base_skipAmount (bytesLeft - length v) pr')
      else Inr pr)"
  by pat_completeness auto
termination
  by (relation "measure (\<lambda>(bytesLeft, pr). mass pr)")
     (auto dest: limitedRead_mass_less)

declare base_skipAmount.simps [simp del]

function byob_skipAmount_loop :: "nat \<Rightarrow> nat \<Rightarrow> nat \<Rightarrow> BYOBReader \<Rightarrow> error + BYOBReader" where
  "byob_skipAmount_loop bufLen bytesLeft trashLen r =
     (if bytesLeft > 0 then
        (case byob_read trashLen r of
           Inl e \<Rightarrow> Inl e
         | Inr (Done, r') \<Rightarrow> Inr r'
         | Inr (Value v, r') \<Rightarrow>
             (let bytesLeft' = bytesLeft - length v;
                  trashLen' = (if bytesLeft' < bufLen then bytesLeft' else bufLen)
              in byob_skipAmount_loop bufLen bytesLeft' trashLen' r'))
      else Inr r)"
  by pat_completeness auto
termination
  by (relation "measure (\<lambda>(bufLen, bytesLeft, trashLen, r). length (pending r))")
     (auto dest: byob_read_pending_less)

declare byob_skipAmount_loop.simps [simp del]

definition byob_skipAmount :: "nat \<Rightarrow> BYOBReader \<Rightarrow> error + BYOBReader" where
  "byob_skipAmount sz r = byob_skipAmount_loop (min sz 2048) sz (min sz 2048) r"

fun skipAmount :: "nat \<Rightarrow> PartialReader \<Rightarrow> error + PartialReader" where
  "skipAmount sz (DefaultPartialReader rd lo) = base_skipAmount sz (DefaultPartialReader rd lo)"
| "skipAmount sz (BYOBPartialReader r) =
     (case byob_skipAmount sz r of Inl e \<Rightarrow> Inl e | Inr r' \<Rightarrow> Inr (BYOBPartialReader r'))"

subsection \<open>Properties of the partial stream reader\<close>

definition isBYOB :: "PartialReader \<Rightarrow> bool" where
  "isBYOB pr = (case pr of DefaultPartialReader rd lo \<Rightarrow> False | BYOBPartialReader r \<Rightarrow> True)"

lemma isBYOB_simps [simp]:
  "isBYOB (DefaultPartialReader rd lo) = False"
  "isBYOB (BYOBPartialReader r) = True"
  by (simp_all add: isBYOB_def)

definition reader_inv :: "PartialReader \<Rightarrow> bool" where
  "reader_inv pr = (case pr of DefaultPartialReader rd lo \<Rightarrow> lo \<noteq> Some [] | BYOBPartialReader r \<Rightarrow> True)"

lemma limitedRead_Done:
  "limitedRead maxSize pr = Inr (Done, pr') \<Longrightarrow> pr' = pr \<and> remaining pr = []"
  by (cases "(maxSize, pr)" rule: limitedRead.cases)
     (auto simp: limit_value_def byob_read_def Let_def
           split: if_splits list.splits sum.splits prod.splits ReadableStreamReadResult.splits)

lemma limitedRead_Value:
  "limitedRead maxSize pr = Inr (Value v, pr') \<Longrightarrow>
     length v \<le> maxSize \<and> remaining pr = v @ remaining pr'"
  by (cases "(maxSize, pr)" rule: limitedRead.cases)
     (auto simp: limit_value_def byob_read_def Let_def
           split: if_splits list.splits sum.splits prod.splits ReadableStreamReadResult.splits)

lemma limitedRead_Inl:
  "limitedRead maxSize pr = Inl e \<Longrightarrow> maxSize = 0 \<and> e = TypeError \<and> (\<exists>r. pr = BYOBPartialReader r)"
  by (cases "(maxSize, pr)" rule: limitedRead.cases)
     (auto simp: limit_value_def byob_read_def Let_def
           split: if_splits list.splits sum.splits prod.splits ReadableStreamReadResult.splits)

lemma limitedRead_inv:
  "limitedRead maxSize pr = Inr (res, pr') \<Longrightarrow> reader_inv pr \<Longrightarrow> reader_inv pr'"
  by (cases "(maxSize, pr)" rule: limitedRead.cases)
     (auto simp: limit_value_def byob_read_def Let_def reader_inv_def
           split: if_splits list.splits sum.splits prod.splits ReadableStreamReadResult.splits)

definition chunks_nonempty :: "PartialReader \<Rightarrow> bool" where
  "chunks_nonempty pr = (case pr of DefaultPartialReader rd lo \<Rightarrow> [] \<notin> set rd | BYOBPartialReader r \<Rightarrow> True)"

lemma limitedRead_nonempty:
  "limitedRead maxSize pr = Inr (Value v, pr') \<Longrightarrow> 0 < maxSize \<Longrightarrow> reader_inv pr \<Longrightarrow>
   chunks_nonempty pr \<Longrightarrow> v \<noteq> []"
  by (cases "(maxSize, pr)" rule: limitedRead.cases)
     (auto simp: limit_value_def byob_read_def Let_def reader_inv_def chunks_nonempty_def min_def
           split: if_splits list.splits sum.splits prod.splits ReadableStreamReadResult.splits)

lemma setBytes_length: "off + length src \<le> length arr \<Longrightarrow> length (setBytes off src arr) = length arr"
  by (simp add: setBytes_def)

lemma take_setBytes: "off + length src \<le> length arr \<Longrightarrow> take (off + length src) (setBytes off src arr) = take off arr @ src"
  by (simp add: setBytes_def)

lemma base_readAmount_loop_spec:
  "bytesRead \<le> sz \<Longrightarrow> length result = sz \<Longrightarrow>
   \<exists>pr'. base_readAmount_loop sz result bytesRead pr
           = Inr (take bytesRead result @ take (sz - bytesRead) (remaining pr), pr') \<and>
         remaining pr' = drop (sz - bytesRead) (remaining pr) \<and>
         (reader_inv pr \<longrightarrow> reader_inv pr')"
proof (induction sz result bytesRead pr rule: base_readAmount_loop.induct)
  case (1 sz result bytesRead pr)
  show ?case
  proof (cases "bytesRead < sz")
    case False
    with "1.prems" show ?thesis by (subst base_readAmount_loop.simps) simp
  next
    case True
    show ?thesis
    proof (cases "limitedRead (sz - bytesRead) pr")
      case (Inl e)
      from limitedRead_Inl [OF this] True show ?thesis by simp
    next
      case (Inr p)
      obtain res pr1 where p: "p = (res, pr1)" by (cases p)
      show ?thesis
      proof (cases res)
        case Done
        with Inr p limitedRead_Done [of "sz - bytesRead" pr pr1] True show ?thesis
          by (subst base_readAmount_loop.simps) simp
      next
        case (Value v)
        with Inr p have lr: "limitedRead (sz - bytesRead) pr = Inr (Value v, pr1)" by simp
        from limitedRead_Value [OF lr] have len: "length v \<le> sz - bytesRead"
          and rem: "remaining pr = v @ remaining pr1" by auto
        have b: "bytesRead + length v \<le> sz" using len True by simp
        have l: "length (setBytes bytesRead v result) = sz"
          using b "1.prems" by (simp add: setBytes_length)
        from "1.IH" [OF True lr refl refl b l] obtain pr' where
          step: "base_readAmount_loop sz (setBytes bytesRead v result) (bytesRead + length v) pr1
             = Inr (take (bytesRead + length v) (setBytes bytesRead v result) @
                    take (sz - (bytesRead + length v)) (remaining pr1), pr')"
          and rem': "remaining pr' = drop (sz - (bytesRead + length v)) (remaining pr1)"
          and inv': "reader_inv pr1 \<longrightarrow> reader_inv pr'"
          by blast
        have t: "take (bytesRead + length v) (setBytes bytesRead v result) = take bytesRead result @ v"
          using b "1.prems" by (simp add: take_setBytes)
        have "base_readAmount_loop sz result bytesRead pr
            = Inr (take bytesRead result @ take (sz - bytesRead) (remaining pr), pr')"
          using True lr step t rem len
          by (subst base_readAmount_loop.simps) simp
        moreover have "remaining pr' = drop (sz - bytesRead) (remaining pr)"
          using rem' rem len by simp
        moreover have "reader_inv pr \<longrightarrow> reader_inv pr'"
          using inv' limitedRead_inv [OF lr] by blast
        ultimately show ?thesis by blast
      qed
    qed
  qed
qed


lemma base_readAmount_spec:
  "0 < sz \<or> (\<exists>rd lo. pr = DefaultPartialReader rd lo) \<Longrightarrow>
   \<exists>pr'. base_readAmount sz pr = Inr (take sz (remaining pr), pr') \<and>
         remaining pr' = drop sz (remaining pr) \<and>
         (reader_inv pr \<longrightarrow> reader_inv pr')"
proof (cases "limitedRead sz pr")
  case (Inl e)
  assume "0 < sz \<or> (\<exists>rd lo. pr = DefaultPartialReader rd lo)"
  with limitedRead_Inl [OF Inl] show ?thesis by auto
next
  case (Inr p)
  obtain res pr1 where p: "p = (res, pr1)" by (cases p)
  show ?thesis
  proof (cases res)
    case Done
    with Inr p limitedRead_Done [of sz pr pr1] show ?thesis
      by (simp add: base_readAmount_def)
  next
    case (Value v)
    with Inr p have lr: "limitedRead sz pr = Inr (Value v, pr1)" by simp
    from limitedRead_Value [OF lr] have len: "length v \<le> sz"
      and rem: "remaining pr = v @ remaining pr1" by auto
    note inv1 = limitedRead_inv [OF lr]
    show ?thesis
    proof (cases "length v < sz")
      case False
      with len have "length v = sz" by simp
      with lr rem inv1 show ?thesis by (auto simp: base_readAmount_def)
    next
      case True
      have l: "length (setBytes 0 v (replicate sz 0)) = sz"
        using len by (simp add: setBytes_length)
      from base_readAmount_loop_spec [OF len l, of pr1] obtain pr' where
        step: "base_readAmount_loop sz (setBytes 0 v (replicate sz 0)) (length v) pr1
           = Inr (take (length v) (setBytes 0 v (replicate sz 0)) @
                  take (sz - length v) (remaining pr1), pr')"
        and rem': "remaining pr' = drop (sz - length v) (remaining pr1)"
        and inv': "reader_inv pr1 \<longrightarrow> reader_inv pr'"
        by blast
      have t: "take (length v) (setBytes 0 v (replicate sz 0)) = v"
        using take_setBytes [of 0 v "replicate sz 0"] len by simp
      have "base_readAmount sz pr = Inr (take sz (remaining pr), pr')"
        using True lr step t rem len by (simp add: base_readAmount_def)
      moreover have "remaining pr' = drop sz (remaining pr)"
        using rem' rem len by simp
      ultimately show ?thesis using inv' inv1 by blast
    qed
  qed
qed

lemma byob_read_Done:
  "byob_read viewLen r = Inr (Done, r') \<Longrightarrow> r' = r \<and> pending r = []"
  by (auto simp: byob_read_def Let_def split: if_splits)

lemma byob_read_Value:
  "byob_read viewLen r = Inr (Value v, r') \<Longrightarrow>
     v \<noteq> [] \<and> length v \<le> viewLen \<and> pending r = v @ pending r'"
  by (auto simp: byob_read_def Let_def min_def split: if_splits list.splits)

lemma byob_read_Inl:
  "byob_read viewLen r = Inl e \<Longrightarrow> viewLen = 0 \<and> e = TypeError"
  by (auto simp: byob_read_def Let_def split: if_splits)

lemma byob_readAmount_loop_spec:
  "bytesRead \<le> sz \<Longrightarrow> length buffer = sz \<Longrightarrow>
   (sz - bytesRead \<le> length (pending r) \<longrightarrow>
      (\<exists>r'. byob_readAmount_loop sz buffer bytesRead r
           = Inr (take bytesRead buffer @ take (sz - bytesRead) (pending r), r') \<and>
         pending r' = drop (sz - bytesRead) (pending r))) \<and>
   (length (pending r) < sz - bytesRead \<longrightarrow>
      byob_readAmount_loop sz buffer bytesRead r = Inl TypeError)"
proof (induction sz buffer bytesRead r rule: byob_readAmount_loop.induct)
  case (1 sz buffer bytesRead r)
  show ?case
  proof (cases "bytesRead < sz")
    case False
    with "1.prems" show ?thesis by (subst byob_readAmount_loop.simps) simp
  next
    case True
    show ?thesis
    proof (cases "byob_read (sz - bytesRead) r")
      case (Inl e)
      from byob_read_Inl [OF this] True show ?thesis by simp
    next
      case (Inr p)
      obtain res r1 where p: "p = (res, r1)" by (cases p)
      show ?thesis
      proof (cases res)
        case Done
        with Inr p byob_read_Done [of "sz - bytesRead" r r1] True show ?thesis
          by (subst byob_readAmount_loop.simps) simp
      next
        case (Value v)
        with Inr p have lr: "byob_read (sz - bytesRead) r = Inr (Value v, r1)" by simp
        from byob_read_Value [OF lr] have len: "length v \<le> sz - bytesRead"
          and rem: "pending r = v @ pending r1" by auto
        have b: "bytesRead + length v \<le> sz" using len True by simp
        have l: "length (setBytes bytesRead v buffer) = sz"
          using b "1.prems" by (simp add: setBytes_length)
        have t: "take (bytesRead + length v) (setBytes bytesRead v buffer) = take bytesRead buffer @ v"
          using b "1.prems" by (simp add: take_setBytes)
        have unfold: "byob_readAmount_loop sz buffer bytesRead r =
            byob_readAmount_loop sz (setBytes bytesRead v buffer) (bytesRead + length v) r1"
          using True lr by (subst byob_readAmount_loop.simps) simp
        note IH = "1.IH" [OF True lr refl refl b l]
        show ?thesis
        proof (intro conjI impI)
          assume "sz - bytesRead \<le> length (pending r)"
          with rem len have "sz - (bytesRead + length v) \<le> length (pending r1)" by simp
          with IH obtain r' where
            step: "byob_readAmount_loop sz (setBytes bytesRead v buffer) (bytesRead + length v) r1
               = Inr (take (bytesRead + length v) (setBytes bytesRead v buffer) @
                      take (sz - (bytesRead + length v)) (pending r1), r')"
            and rem': "pending r' = drop (sz - (bytesRead + length v)) (pending r1)"
            by blast
          have "byob_readAmount_loop sz buffer bytesRead r
              = Inr (take bytesRead buffer @ take (sz - bytesRead) (pending r), r')"
            using unfold step t rem len by simp
          moreover have "pending r' = drop (sz - bytesRead) (pending r)"
            using rem' rem len by simp
          ultimately show "\<exists>r'. byob_readAmount_loop sz buffer bytesRead r
               = Inr (take bytesRead buffer @ take (sz - bytesRead) (pending r), r') \<and>
             pending r' = drop (sz - bytesRead) (pending r)"
            by blast
        next
          assume "length (pending r) < sz - bytesRead"
          with rem len have "length (pending r1) < sz - (bytesRead + length v)" by simp
          with IH unfold show "byob_readAmount_loop sz buffer bytesRead r = Inl TypeError"
            by simp
        qed
      qed
    qed
  qed
qed

lemma limitedRead_kind:
  "limitedRead maxSize pr = Inr (res, pr') \<Longrightarrow> isBYOB pr' = isBYOB pr"
  by (cases "(maxSize, pr)" rule: limitedRead.cases)
     (auto simp: limit_value_def split: if_splits sum.splits prod.splits ReadableStreamReadResult.splits)

lemma base_readAmount_loop_kind:
  "base_readAmount_loop sz result bytesRead pr = Inr (d, pr') \<Longrightarrow> isBYOB pr' = isBYOB pr"
proof (induction sz result bytesRead pr rule: base_readAmount_loop.induct)
  case (1 sz result bytesRead pr)
  show ?case
  proof (cases "bytesRead < sz")
    case False
    with "1.prems" show ?thesis by (subst (asm) base_readAmount_loop.simps) simp
  next
    case True
    from "1.prems" True obtain res pr1 where
      lr: "limitedRead (sz - bytesRead) pr = Inr (res, pr1)"
      by (subst (asm) base_readAmount_loop.simps) (auto split: sum.splits)
    show ?thesis
    proof (cases res)
      case Done
      with "1.prems" True lr limitedRead_kind [OF lr] show ?thesis
        by (subst (asm) base_readAmount_loop.simps) simp
    next
      case (Value v)
      with lr have lr': "limitedRead (sz - bytesRead) pr = Inr (Value v, pr1)" by simp
      from "1.prems" True lr' have
        "base_readAmount_loop sz (setBytes bytesRead v result) (bytesRead + length v) pr1 = Inr (d, pr')"
        by (subst (asm) base_readAmount_loop.simps) simp
      from "1.IH" [OF True lr' refl refl this] limitedRead_kind [OF lr'] show ?thesis by simp
    qed
  qed
qed

lemma readAmount_kind:
  "readAmount sz pr = Inr (d, pr') \<Longrightarrow> isBYOB pr' = isBYOB pr"
  by (cases pr)
     (auto simp: base_readAmount_def
           split: sum.splits prod.splits ReadableStreamReadResult.splits if_splits
           dest: limitedRead_kind base_readAmount_loop_kind)

lemma readAmount_spec:
  "(sz \<le> length (remaining pr) \<or> \<not> isBYOB pr \<longrightarrow>
      (\<exists>pr'. readAmount sz pr = Inr (take sz (remaining pr), pr') \<and>
         remaining pr' = drop sz (remaining pr) \<and>
         (reader_inv pr \<longrightarrow> reader_inv pr'))) \<and>
   (isBYOB pr \<and> length (remaining pr) < sz \<longrightarrow> readAmount sz pr = Inl TypeError)"
proof (cases pr)
  case (DefaultPartialReader rd lo)
  then show ?thesis using base_readAmount_spec [of sz pr] by simp
next
  case (BYOBPartialReader r)
  from byob_readAmount_loop_spec [of 0 sz "replicate sz 0" r] have
    "sz \<le> length (pending r) \<longrightarrow>
       (\<exists>r'. byob_readAmount_loop sz (replicate sz 0) 0 r = Inr (take sz (pending r), r') \<and>
          pending r' = drop sz (pending r))"
    and "length (pending r) < sz \<longrightarrow> byob_readAmount_loop sz (replicate sz 0) 0 r = Inl TypeError"
    by auto
  with BYOBPartialReader show ?thesis
    by (auto simp: byob_readAmount_def reader_inv_def)
qed

text \<open>
  \<^verbatim>\<open>readAmountStrict\<close>: the next \<open>sz\<close> bytes when the source has them. When it has
  not, the default variant fails with UnexpectedEnd; the BYOB variant fails with the
  TypeError of its \<^verbatim>\<open>readAmount\<close>, and never gets to the length check.
\<close>

lemma readAmountStrict_spec:
  "(sz \<le> length (remaining pr) \<longrightarrow>
      (\<exists>pr'. readAmountStrict sz pr = Inr (take sz (remaining pr), pr') \<and>
            remaining pr' = drop sz (remaining pr) \<and> (reader_inv pr \<longrightarrow> reader_inv pr'))) \<and>
   (length (remaining pr) < sz \<longrightarrow>
      readAmountStrict sz pr = Inl (if isBYOB pr then TypeError else UnexpectedEnd))"
  using readAmount_spec [of sz pr] by (cases "isBYOB pr") (auto simp: readAmountStrict_def)

lemma readAmountStrict_kind:
  "readAmountStrict sz pr = Inr (d, pr') \<Longrightarrow> isBYOB pr' = isBYOB pr"
  by (auto simp: readAmountStrict_def split: sum.splits prod.splits if_splits dest: readAmount_kind)

lemma base_skipAmount_spec:
  "\<exists>pr'. base_skipAmount bytesLeft pr = Inr pr' \<and>
         remaining pr' = drop bytesLeft (remaining pr) \<and>
         (reader_inv pr \<longrightarrow> reader_inv pr')"
proof (induction bytesLeft pr rule: base_skipAmount.induct)
  case (1 bytesLeft pr)
  show ?case
  proof (cases "bytesLeft > 0")
    case False
    then show ?thesis by (subst base_skipAmount.simps) simp
  next
    case True
    show ?thesis
    proof (cases "limitedRead bytesLeft pr")
      case (Inl e)
      from limitedRead_Inl [OF this] True show ?thesis by simp
    next
      case (Inr p)
      obtain res pr1 where p: "p = (res, pr1)" by (cases p)
      show ?thesis
      proof (cases res)
        case Done
        with Inr p limitedRead_Done [of bytesLeft pr pr1] True show ?thesis
          by (subst base_skipAmount.simps) simp
      next
        case (Value v)
        with Inr p have lr: "limitedRead bytesLeft pr = Inr (Value v, pr1)" by simp
        from limitedRead_Value [OF lr] have len: "length v \<le> bytesLeft"
          and rem: "remaining pr = v @ remaining pr1" by auto
        from "1.IH" [OF True lr refl refl] obtain pr' where
          step: "base_skipAmount (bytesLeft - length v) pr1 = Inr pr'"
          and rem': "remaining pr' = drop (bytesLeft - length v) (remaining pr1)"
          and inv': "reader_inv pr1 \<longrightarrow> reader_inv pr'"
          by blast
        have "base_skipAmount bytesLeft pr = Inr pr'"
          using True lr step by (subst base_skipAmount.simps) simp
        moreover have "remaining pr' = drop bytesLeft (remaining pr)"
          using rem' rem len by simp
        moreover have "reader_inv pr \<longrightarrow> reader_inv pr'"
          using inv' limitedRead_inv [OF lr] by blast
        ultimately show ?thesis by blast
      qed
    qed
  qed
qed

lemma byob_skipAmount_loop_spec:
  "0 < bufLen \<or> bytesLeft = 0 \<Longrightarrow> trashLen = min bytesLeft bufLen \<Longrightarrow>
   \<exists>r'. byob_skipAmount_loop bufLen bytesLeft trashLen r = Inr r' \<and>
        pending r' = drop bytesLeft (pending r)"
proof (induction bufLen bytesLeft trashLen r rule: byob_skipAmount_loop.induct)
  case (1 bufLen bytesLeft trashLen r)
  show ?case
  proof (cases "bytesLeft > 0")
    case False
    then show ?thesis by (subst byob_skipAmount_loop.simps) simp
  next
    case True
    with "1.prems" have tl: "0 < trashLen" "trashLen \<le> bytesLeft" by auto
    show ?thesis
    proof (cases "byob_read trashLen r")
      case (Inl e)
      from byob_read_Inl [OF this] tl show ?thesis by simp
    next
      case (Inr p)
      obtain res r1 where p: "p = (res, r1)" by (cases p)
      show ?thesis
      proof (cases res)
        case Done
        with Inr p byob_read_Done [of trashLen r r1] True show ?thesis
          by (subst byob_skipAmount_loop.simps) simp
      next
        case (Value v)
        with Inr p have lr: "byob_read trashLen r = Inr (Value v, r1)" by simp
        from byob_read_Value [OF lr] have len: "length v \<le> trashLen"
          and rem: "pending r = v @ pending r1" by auto
        let ?bl = "bytesLeft - length v"
        let ?tl = "if ?bl < bufLen then ?bl else bufLen"
        have a: "0 < bufLen \<or> ?bl = 0" using "1.prems" True by auto
        have b: "?tl = min ?bl bufLen" by (simp add: min_def)
        from "1.IH" [OF True lr refl refl refl refl a b] obtain r' where
          step: "byob_skipAmount_loop bufLen ?bl ?tl r1 = Inr r'"
          and rem': "pending r' = drop ?bl (pending r1)"
          by blast
        have "byob_skipAmount_loop bufLen bytesLeft trashLen r = Inr r'"
          using True lr step
          by (subst byob_skipAmount_loop.simps) (simp add: Let_def)
        moreover have "pending r' = drop bytesLeft (pending r)"
          using rem' rem len tl by simp
        ultimately show ?thesis by blast
      qed
    qed
  qed
qed

lemma skipAmount_spec:
  "\<exists>pr'. skipAmount sz pr = Inr pr' \<and>
         remaining pr' = drop sz (remaining pr) \<and>
         (reader_inv pr \<longrightarrow> reader_inv pr')"
proof (cases pr)
  case (DefaultPartialReader rd lo)
  then show ?thesis using base_skipAmount_spec [of sz pr] by simp
next
  case (BYOBPartialReader r)
  have "0 < min sz 2048 \<or> sz = 0" by auto
  from byob_skipAmount_loop_spec [OF this, of "min sz 2048" r] obtain r' where
    "byob_skipAmount_loop (min sz 2048) sz (min sz 2048) r = Inr r'"
    and "pending r' = drop sz (pending r)" by auto
  with BYOBPartialReader show ?thesis
    by (simp add: byob_skipAmount_def reader_inv_def)
qed

lemma base_skipAmount_kind:
  "base_skipAmount bytesLeft pr = Inr pr' \<Longrightarrow> isBYOB pr' = isBYOB pr"
proof (induction bytesLeft pr rule: base_skipAmount.induct)
  case (1 bytesLeft pr)
  show ?case
  proof (cases "bytesLeft > 0")
    case False
    with "1.prems" show ?thesis by (subst (asm) base_skipAmount.simps) simp
  next
    case True
    from "1.prems" True obtain res pr1 where
      lr: "limitedRead bytesLeft pr = Inr (res, pr1)"
      by (subst (asm) base_skipAmount.simps) (auto split: sum.splits)
    show ?thesis
    proof (cases res)
      case Done
      with "1.prems" True lr limitedRead_kind [OF lr] show ?thesis
        by (subst (asm) base_skipAmount.simps) simp
    next
      case (Value v)
      with lr have lr': "limitedRead bytesLeft pr = Inr (Value v, pr1)" by simp
      from "1.prems" True lr' have "base_skipAmount (bytesLeft - length v) pr1 = Inr pr'"
        by (subst (asm) base_skipAmount.simps) simp
      from "1.IH" [OF True lr' refl refl this] limitedRead_kind [OF lr'] show ?thesis by simp
    qed
  qed
qed

lemma skipAmount_kind:
  "skipAmount sz pr = Inr pr' \<Longrightarrow> isBYOB pr' = isBYOB pr"
  by (cases pr) (auto split: sum.splits dest: base_skipAmount_kind)


subsection \<open>streamAmount\<close>

text \<open>
  \<^verbatim>\<open>streamAmount(size)\<close> returns a \<^verbatim>\<open>StreamUpToAmountResult\<close>: a stream, the flag
  \<^verbatim>\<open>consumed\<close> and the promise \<^verbatim>\<open>onConsumed\<close>. The record \<open>StreamAmount\<close> holds
  what the closures of the stream share: the counter \<^verbatim>\<open>bytesLeft\<close>, the flag, the
  state of the promise, and \<open>closed\<close>: whether the stream's controller was closed, the
  stream was canceled or a pull threw, after which the platform calls neither
  \<^verbatim>\<open>pull\<close> nor \<^verbatim>\<open>cancel\<close> again. Settling a promise that is already settled does
  nothing. \<open>finish\<close> is the statement sequence \<^verbatim>\<open>result.consumed = true;
  deferred.resolve(); controller.close()\<close>, \<open>fail\<close> the \<^verbatim>\<open>catch\<close> block of a pull.

  \<open>base_pull\<close> and \<open>byob_pull\<close> are the \<^verbatim>\<open>pull\<close> callbacks of the two variants (one
  call, run to its end; \<open>viewLen\<close> is the length of the view the BYOB request
  offers), returning the chunks enqueued; \<open>cancel\<close> is the \<^verbatim>\<open>cancel\<close> callback.
  \<open>pulls\<close> runs a sequence of pulls, each to its end, \<open>pull_all\<close> pulls until the
  stream is closed, as a consumer that pipes the stream to its end does.

  At the end of the upstream the pull of the BYOB variant has set \<^verbatim>\<open>consumed\<close>,
  resolved the promise and closed the controller when its last statement,
  \<^verbatim>\<open>controller.byobRequest!.respond(0)\<close>, throws (the buffer of the request went to
  the upstream reader with the read); the \<^verbatim>\<open>catch\<close> block then rejects a promise
  that is settled, and the platform ignores the error of a stream that is closed. So
  the pull leaves the same state as that of the default variant.
\<close>

datatype promise = Pending | Resolved | Rejected error

definition resolve :: "promise \<Rightarrow> promise" where
  "resolve p = (if p = Pending then Resolved else p)"

definition reject :: "error \<Rightarrow> promise \<Rightarrow> promise" where
  "reject e p = (if p = Pending then Rejected e else p)"

record StreamAmount =
  bytesLeft :: nat
  consumed :: bool
  onConsumed :: promise
  closed :: bool

definition streamAmount :: "nat \<Rightarrow> StreamAmount" where
  "streamAmount sz = \<lparr>bytesLeft = sz, consumed = False, onConsumed = Pending, closed = False\<rparr>"

definition finish :: "StreamAmount \<Rightarrow> StreamAmount" where
  "finish s = s\<lparr>consumed := True, onConsumed := resolve (onConsumed s), closed := True\<rparr>"

definition fail :: "error \<Rightarrow> StreamAmount \<Rightarrow> StreamAmount" where
  "fail e s = s\<lparr>onConsumed := reject e (onConsumed s), closed := True\<rparr>"

definition base_pull ::
  "StreamAmount \<Rightarrow> PartialReader \<Rightarrow> (error + chunk list) \<times> StreamAmount \<times> PartialReader" where
  "base_pull s pr =
     (case limitedRead (bytesLeft s) pr of
        Inl e \<Rightarrow> (Inl e, fail e s, pr)
      | Inr (Done, pr') \<Rightarrow> (Inr [], finish s, pr')
      | Inr (Value v, pr') \<Rightarrow>
          (let s' = s\<lparr>bytesLeft := bytesLeft s - length v\<rparr>
           in (Inr [v], if bytesLeft s' \<le> 0 then finish s' else s', pr')))"

definition byob_pull ::
  "nat \<Rightarrow> StreamAmount \<Rightarrow> BYOBReader \<Rightarrow> (error + chunk list) \<times> StreamAmount \<times> BYOBReader" where
  "byob_pull viewLen s r =
     (if bytesLeft s \<le> 0 then (Inr [], finish s, r)
      else
        (case byob_read (min viewLen (bytesLeft s)) r of
           Inl e \<Rightarrow> (Inl e, fail e s, r)
         | Inr (Done, r') \<Rightarrow> (Inr [], finish s, r')
         | Inr (Value v, r') \<Rightarrow> (Inr [v], s\<lparr>bytesLeft := bytesLeft s - length v\<rparr>, r')))"

fun pull ::
  "nat \<Rightarrow> StreamAmount \<Rightarrow> PartialReader \<Rightarrow> (error + chunk list) \<times> StreamAmount \<times> PartialReader" where
  "pull viewLen s (DefaultPartialReader rd lo) = base_pull s (DefaultPartialReader rd lo)"
| "pull viewLen s (BYOBPartialReader r) =
     (case byob_pull viewLen s r of (res, s', r') \<Rightarrow> (res, s', BYOBPartialReader r'))"





text \<open>
  A cancel that comes while a pull is still awaiting its read, in the default variant.
  Nothing in the class keeps the reads of two callers apart (the file says so:
  \<^verbatim>\<open>// TODO throw if overlapping reads happen\<close>), so the halves of the two calls of
  \<^verbatim>\<open>limitedRead\<close> interleave. \<open>limitedRead_begin\<close> is \<^verbatim>\<open>limitedRead\<close> up to
  \<^verbatim>\<open>await this.#reader.read()\<close>: with a leftover the method runs to its end without
  awaiting (\<open>Settled\<close>), otherwise it has asked the upstream reader for the next chunk
  (\<open>Awaited\<close>; the upstream serves its read requests in the order they were made, so
  the request is modelled by the chunk it will get). \<open>limitedRead_end\<close> is the rest of
  the method, run when the read has returned, on the leftover as it is by then.

  \<open>cancel_during_pull\<close>: the stream is open, \<^verbatim>\<open>pull\<close> has called
  \<^verbatim>\<open>limitedRead(bytesLeft)\<close> and awaits it, and the consumer cancels the stream. The
  platform closes the stream and calls \<^verbatim>\<open>cancel\<close>, which calls
  \<^verbatim>\<open>skipAmount(bytesLeft)\<close> with the counter the pull has not yet decremented;
  its first \<^verbatim>\<open>limitedRead\<close> queues behind that of the pull. Then the pull resumes:
  \<^verbatim>\<open>controller.enqueue\<close> (or, at the end of the upstream, \<^verbatim>\<open>controller.close\<close>)
  throws a TypeError, the stream being closed, and the \<^verbatim>\<open>catch\<close> block rejects the
  promise. Then \<^verbatim>\<open>skipAmount\<close> resumes and runs to its end, and \<^verbatim>\<open>cancel\<close> sets
  \<^verbatim>\<open>consumed\<close> and resolves the promise, if it is still pending.
\<close>

datatype PendingRead =
    Settled "chunk ReadableStreamReadResult"
  | Awaited "chunk ReadableStreamReadResult"

definition limitedRead_begin ::
  "nat \<Rightarrow> chunk list \<Rightarrow> chunk option \<Rightarrow> PendingRead \<times> chunk list \<times> chunk option" where
  "limitedRead_begin maxSize rd lo =
     (case lo of
        Some v \<Rightarrow>
          if length v > maxSize
          then (Settled (Value (take maxSize v)), rd, Some (drop maxSize v))
          else (Settled (Value v), rd, None)
      | None \<Rightarrow> (Awaited (fst (default_read rd)), snd (default_read rd), None))"

definition limitedRead_end ::
  "nat \<Rightarrow> PendingRead \<Rightarrow> chunk option \<Rightarrow> chunk ReadableStreamReadResult \<times> chunk option" where
  "limitedRead_end maxSize req lo =
     (case req of
        Settled res \<Rightarrow> (res, lo)
      | Awaited Done \<Rightarrow> (Done, lo)
      | Awaited (Value v) \<Rightarrow>
          if length v > maxSize then (Value (take maxSize v), Some (drop maxSize v))
          else (Value v, lo))"


text \<open>The two halves, run one after the other, are \<^verbatim>\<open>limitedRead\<close>.\<close>

lemma limitedRead_halves:
  "(case limitedRead_begin maxSize rd lo of
      (req, rd', lo') \<Rightarrow>
        (case limitedRead_end maxSize req lo' of
           (res, lo'') \<Rightarrow> Inr (res, DefaultPartialReader rd' lo''))) =
   limitedRead maxSize (DefaultPartialReader rd lo)"
  by (cases lo; cases rd)
     (simp_all add: limitedRead_begin_def limitedRead_end_def limit_value_def)

lemma limitedRead_ValueD:
  "limitedRead maxSize pr = Inr (Value v, pr') \<Longrightarrow>
     length v \<le> maxSize \<and> remaining pr = v @ remaining pr' \<and> mass pr' \<le> mass pr \<and>
     (0 < maxSize \<longrightarrow> mass pr' < mass pr)"
  using limitedRead_Value limitedRead_mass_le limitedRead_mass_less by blast

lemma byob_read_ValueD:
  "byob_read viewLen r = Inr (Value v, r') \<Longrightarrow>
     v \<noteq> [] \<and> length v \<le> viewLen \<and> pending r = v @ pending r' \<and>
     length (pending r') < length (pending r)"
  using byob_read_Value byob_read_pending_less by blast

definition open_inv :: "StreamAmount \<Rightarrow> bool" where
  "open_inv s = (\<not> closed s \<longrightarrow> \<not> consumed s \<and> onConsumed s = Pending)"

lemma pull_Inr:
  "pull viewLen s pr = (Inr out, s', pr') \<Longrightarrow>
     remaining pr = concat out @ remaining pr' \<and>
     bytesLeft s' + length (concat out) = bytesLeft s"
  by (cases pr)
     (auto simp: base_pull_def byob_pull_def Let_def finish_def fail_def
           split: sum.splits prod.splits ReadableStreamReadResult.splits if_splits
           dest!: limitedRead_ValueD limitedRead_Done byob_read_ValueD byob_read_Done)

lemma pull_measure:
  "pull viewLen s pr = (Inr out, s', pr') \<Longrightarrow> \<not> closed s \<Longrightarrow>
     mass pr' + (if closed s' then 0 else 1) < mass pr + 1"
  by (cases pr; cases "bytesLeft s = 0")
     (auto simp: base_pull_def byob_pull_def Let_def finish_def fail_def
           split: sum.splits prod.splits ReadableStreamReadResult.splits if_splits
           dest!: limitedRead_ValueD limitedRead_Done byob_read_ValueD byob_read_Done)

lemma pull_open_inv:
  "pull viewLen s pr = (res, s', pr') \<Longrightarrow> open_inv s \<Longrightarrow> \<not> closed s \<Longrightarrow>
     open_inv s' \<and> (closed s' \<and> (\<exists>out. res = Inr out) \<longrightarrow> consumed s' \<and> onConsumed s' = Resolved)"
  by (cases pr)
     (auto simp: base_pull_def byob_pull_def Let_def finish_def fail_def open_inv_def resolve_def
           split: sum.splits prod.splits ReadableStreamReadResult.splits if_splits)

lemma pull_closes:
  "pull viewLen s pr = (Inr out, s', pr') \<Longrightarrow> \<not> closed s \<Longrightarrow> closed s' \<Longrightarrow>
     bytesLeft s' = 0 \<or> remaining pr' = []"
  by (cases pr)
     (auto simp: base_pull_def byob_pull_def Let_def finish_def fail_def
           split: sum.splits prod.splits ReadableStreamReadResult.splits if_splits
           dest!: limitedRead_Done byob_read_Done)

lemma pull_Inl:
  "pull viewLen s pr = (Inl e, s', pr') \<Longrightarrow> viewLen = 0 \<and> closed s'"
  by (cases pr)
     (auto simp: base_pull_def byob_pull_def Let_def finish_def fail_def
           split: sum.splits prod.splits ReadableStreamReadResult.splits if_splits
           dest!: limitedRead_Inl byob_read_Inl)

function pull_all ::
  "nat \<Rightarrow> StreamAmount \<Rightarrow> PartialReader \<Rightarrow> (chunk list \<times> error option) \<times> StreamAmount \<times> PartialReader" where
  "pull_all viewLen s pr =
     (if closed s then (([], None), s, pr)
      else
        (case pull viewLen s pr of
           (Inl e, s', pr') \<Rightarrow> (([], Some e), s', pr')
         | (Inr out, s', pr') \<Rightarrow>
             (case pull_all viewLen s' pr' of
                ((outs, r), s'', pr'') \<Rightarrow> ((out @ outs, r), s'', pr''))))"
  by pat_completeness auto
termination
  apply (relation "measure (\<lambda>(viewLen, s, pr). mass pr + (if closed s then 0 else 1))")
   apply simp
  subgoal for viewLen s pr x y b xa ya
    using pull_measure [of viewLen s pr b xa ya] by auto
  done

declare pull_all.simps [simp del]

lemma pull_all_spec:
  "open_inv s \<Longrightarrow> 0 < viewLen \<Longrightarrow>
   \<exists>outs s' pr'. pull_all viewLen s pr = ((outs, None), s', pr') \<and>
      (\<not> closed s \<longrightarrow>
         concat outs = take (bytesLeft s) (remaining pr) \<and>
         remaining pr' = drop (bytesLeft s) (remaining pr) \<and>
         consumed s' \<and> onConsumed s' = Resolved) \<and> closed s'"
proof (induction viewLen s pr rule: pull_all.induct)
  case (1 viewLen s pr)
  show ?case
  proof (cases "closed s")
    case True
    then show ?thesis by (subst pull_all.simps) simp
  next
    case False
    obtain res s1 pr1 where p: "pull viewLen s pr = (res, s1, pr1)" by (cases "pull viewLen s pr")
    show ?thesis
    proof (cases res)
      case (Inl e)
      with p pull_Inl [of viewLen s pr e s1 pr1] "1.prems" show ?thesis by simp
    next
      case (Inr out)
      with p have p': "pull viewLen s pr = (Inr out, s1, pr1)" by simp
      from pull_open_inv [OF p' "1.prems"(1) False]
      have inv1: "open_inv s1" and fin: "closed s1 \<longrightarrow> consumed s1 \<and> onConsumed s1 = Resolved" by auto
      from pull_Inr [OF p'] have rem: "remaining pr = concat out @ remaining pr1"
        and bl: "bytesLeft s1 + length (concat out) = bytesLeft s" by auto
      from "1.IH" [OF False p' [symmetric] refl refl inv1 "1.prems"(2)]
      obtain outs s' pr' where
        step: "pull_all viewLen s1 pr1 = ((outs, None), s', pr')"
        and rest: "\<not> closed s1 \<longrightarrow>
           concat outs = take (bytesLeft s1) (remaining pr1) \<and>
           remaining pr' = drop (bytesLeft s1) (remaining pr1) \<and>
           consumed s' \<and> onConsumed s' = Resolved"
        and cl: "closed s'"
        by blast
      have res: "pull_all viewLen s pr = ((out @ outs, None), s', pr')"
        using False p' step by (subst pull_all.simps) simp
      have bl': "bytesLeft s - length (concat out) = bytesLeft s1"
        using bl by simp
      have le: "length (concat out) \<le> bytesLeft s"
        using bl by simp
      show ?thesis
      proof (cases "closed s1")
        case False
        with rest rem bl' le res cl show ?thesis by auto
      next
        case True
        then have e: "pull_all viewLen s1 pr1 = (([], None), s1, pr1)"
          by (subst pull_all.simps) simp
        with step have eq: "outs = []" "s' = s1" "pr' = pr1" by auto
        have "bytesLeft s1 = 0 \<or> remaining pr1 = []"
          using pull_closes [OF p' False True] .
        with eq res rem bl' le fin True show ?thesis by auto
      qed
    qed
  qed
qed

text \<open>
  \<^verbatim>\<open>PartialReader.fromStream(stream)\<close> takes the BYOB variant when the stream is a
  byte stream and the default variant otherwise. Both start without a leftover.
\<close>

datatype ReadableStream = DefaultStream "chunk list" | ByteStream BYOBReader

fun fromStream :: "ReadableStream \<Rightarrow> PartialReader" where
  "fromStream (DefaultStream cs) = DefaultPartialReader cs None"
| "fromStream (ByteStream r) = BYOBPartialReader r"

lemma reader_inv_fromStream: "reader_inv (fromStream st)"
  by (cases st) (simp_all add: reader_inv_def)

subsection \<open>Claims about the partial stream reader\<close>

text \<open>
  C3. \<^verbatim>\<open>readAmountStrict(n)\<close> returns the next \<open>n\<close> bytes whenever the source has
  them, in both variants, and the default variant fails with UnexpectedEnd when the
  source ends before (\<open>readAmountStrict_spec\<close>). The BYOB variant does not: on a byte
  stream that delivers the three bytes 1, 2, 3 and ends, \<^verbatim>\<open>readAmountStrict(5)\<close>
  fails with the TypeError that \<^verbatim>\<open>BYOBPartialReader.readAmount\<close> throws at the end of
  the stream, where the default variant on the same bytes fails with UnexpectedEnd.
\<close>

theorem C3_readAmountStrict:
  "readAmountStrict 5 (fromStream (ByteStream \<lparr>pending = [1, 2, 3], grants = []\<rparr>)) = Inl TypeError \<and>
   readAmountStrict 5 (fromStream (DefaultStream [[1, 2, 3]])) = Inl UnexpectedEnd"
  using readAmountStrict_spec [of 5 "fromStream (ByteStream \<lparr>pending = [1, 2, 3], grants = []\<rparr>)"]
    readAmountStrict_spec [of 5 "fromStream (DefaultStream [[1, 2, 3]])"]
  by simp


subsection \<open>Properties of streamAmount\<close>







text \<open>
  C5, as amended. For every \<open>maxSize \<ge> 1\<close>, \<^verbatim>\<open>limitedRead(maxSize)\<close> on either
  variant returns \<^verbatim>\<open>done\<close> or a slice of at most \<open>maxSize\<close> bytes, and the slice has
  at least one byte when the upstream delivers no empty chunk (a BYOB reader never
  does). \<open>reader_inv\<close>, that a leftover is never empty, holds of every reader made by
  \<^verbatim>\<open>fromStream\<close> and is kept by every operation.
\<close>

theorem C5_limitedRead:
  assumes "0 < maxSize"
  shows "\<exists>res pr'. limitedRead maxSize pr = Inr (res, pr') \<and>
           (reader_inv pr \<longrightarrow> reader_inv pr') \<and>
           (chunks_nonempty pr \<longrightarrow> chunks_nonempty pr') \<and>
           (\<forall>v. res = Value v \<longrightarrow>
              length v \<le> maxSize \<and>
              (reader_inv pr \<and> chunks_nonempty pr \<longrightarrow> 1 \<le> length v))"
proof (cases "limitedRead maxSize pr")
  case (Inl e)
  from limitedRead_Inl [OF this] assms show ?thesis by simp
next
  case (Inr p)
  obtain res pr' where p: "p = (res, pr')" by (cases p)
  have cn: "chunks_nonempty pr \<longrightarrow> chunks_nonempty pr'"
    using Inr p
    by (cases "(maxSize, pr)" rule: limitedRead.cases)
       (auto simp: limit_value_def chunks_nonempty_def
             split: if_splits sum.splits prod.splits ReadableStreamReadResult.splits)
  have "length v \<le> maxSize \<and> (reader_inv pr \<and> chunks_nonempty pr \<longrightarrow> 1 \<le> length v)"
    if "res = Value v" for v
  proof -
    from that Inr p have lr: "limitedRead maxSize pr = Inr (Value v, pr')" by simp
    from limitedRead_Value [OF lr] limitedRead_nonempty [OF lr assms] show ?thesis
      by (cases v) auto
  qed
  with Inr p cn limitedRead_inv [of maxSize pr res pr'] show ?thesis by auto
qed

theorem C5_limitedRead_witness:
  "limitedRead 2 (fromStream (DefaultStream [[1, 2, 3], [4, 5, 6]]))
     = Inr (Value [1, 2], DefaultPartialReader [[4, 5, 6]] (Some [3])) \<and>
   reader_inv (fromStream (DefaultStream [[1, 2, 3], [4, 5, 6]])) \<and>
   chunks_nonempty (fromStream (DefaultStream [[1, 2, 3], [4, 5, 6]])) \<and>
   limitedRead 2 (fromStream (ByteStream \<lparr>pending = [1, 2, 3], grants = [0]\<rparr>))
     = Inr (Value [1], BYOBPartialReader \<lparr>pending = [2, 3], grants = []\<rparr>)"
  using C5_limitedRead [of 2 "fromStream (DefaultStream [[1, 2, 3], [4, 5, 6]])"]
  by (simp add: limit_value_def reader_inv_def chunks_nonempty_def byob_read_def)

text \<open>
  C5 as stated fails for the default variant: a default stream may deliver an empty
  chunk, and \<^verbatim>\<open>limitedRead(1)\<close> hands it on as a slice that is empty and not done.
\<close>

theorem C5_limitedRead_counterexample:
  "limitedRead 1 (fromStream (DefaultStream [[], [1, 2, 3]]))
     = Inr (Value [], DefaultPartialReader [[1, 2, 3]] None)"
  by (simp add: limit_value_def)

section \<open>The stream writer\<close>

text \<open>
  \<^verbatim>\<open>write.ts\<close>. A \<^verbatim>\<open>Date\<close> is modelled by its time value, the milliseconds since
  the epoch. A name is a well-formed string (one with no unpaired surrogate), modelled
  by the sequence of its UTF-8 code units (a HOL \<open>char\<close> is a byte), so that
  \<^verbatim>\<open>TextEncoder.encode\<close> only changes the element type. \<^verbatim>\<open>TextDecoder.decode\<close>, of
  the decoder \<^verbatim>\<open>new TextDecoder()\<close> of \<^verbatim>\<open>read.ts\<close>, whose \<^verbatim>\<open>ignoreBOM\<close> is
  false, drops a leading byte order mark, the three bytes \<open>EF BB BF\<close> of U+FEFF,
  and changes the element type of the rest; the replacement characters it gives for
  bytes that are not well-formed UTF-8, which no name written by \<^verbatim>\<open>write\<close> has, are
  not modelled. A body stream is the list of the chunks it delivers. The optional
  abort signal of \<^verbatim>\<open>write\<close> is absent.
\<close>

record ExtendedTimestamps =
  modifyTime :: "int option"
  accessTime :: "int option"
  createTime :: "int option"

datatype WriteBody =
    Uncompressed (originalSize: nat) (originalCrc: int) (stream: "chunk list")
  | Deflate (originalSize: nat) (compressedSize: nat) (originalCrc: int) (stream: "chunk list")

datatype WriteEntry =
    WriteFile (name: string) (extendedTimestamps: "ExtendedTimestamps option") (body: WriteBody)
  | WriteDirectory (name: string) (extendedTimestamps: "ExtendedTimestamps option")

definition TextEncoder_encode :: "string \<Rightarrow> byte list" where
  "TextEncoder_encode s = map (\<lambda>c. word_of_nat (of_char c)) s"

definition TextDecoder_decode :: "byte list \<Rightarrow> string" where
  "TextDecoder_decode bs =
     map (\<lambda>b. char_of (unat b)) (if take 3 bs = [0xEF, 0xBB, 0xBF] then drop 3 bs else bs)"

text \<open>
  \<open>bodyLength\<close>: the length the writer expects of the body stream,
  \<^verbatim>\<open>entry.body.compressed ? entry.body.compressedSize : entry.body.originalSize\<close>.
\<close>

definition bodyLength :: "WriteBody \<Rightarrow> nat" where
  "bodyLength b = (case b of Uncompressed osz _ _ \<Rightarrow> osz | Deflate _ csz _ _ \<Rightarrow> csz)"

text \<open>
  \<^verbatim>\<open>getTime() / 1000\<close> stored by \<^verbatim>\<open>setUint32\<close>: the quotient is truncated towards
  zero (\<open>seconds\<close>) and reduced modulo \<open>2^32\<close> (\<open>ToUint32\<close>). \<open>putTime\<close> is one of
  the three \<^verbatim>\<open>if (entry.extendedTimestamps.xTime)\<close> blocks of
  \<^verbatim>\<open>createExtraField\<close>, on the variables \<^verbatim>\<open>result\<close>, \<^verbatim>\<open>xLen\<close> and \<^verbatim>\<open>flags\<close>.
\<close>

definition seconds :: "int \<Rightarrow> int" where
  "seconds ms = (if 0 \<le> ms then ms div 1000 else - ((- ms) div 1000))"

definition putTime :: "nat \<Rightarrow> nat \<Rightarrow> int option \<Rightarrow> byte list \<times> nat \<times> nat \<Rightarrow> byte list \<times> nat \<times> nat" where
  "putTime pos flagBit t st =
     (case t of
        None \<Rightarrow> st
      | Some ms \<Rightarrow>
          (case st of (result, xLen, flags) \<Rightarrow>
             (setUint32 (pos + 4 + xLen) (ToUint32 (seconds ms)) result, xLen + 4, flags OR flagBit)))"

definition createExtraField :: "WriteEntry \<Rightarrow> nat option \<Rightarrow> byte list option" where
  "createExtraField entry lfhOffset =
     (let osz = (case entry of WriteFile _ _ b \<Rightarrow> originalSize b | WriteDirectory _ _ \<Rightarrow> 0);
          csz = (case entry of WriteFile _ _ b \<Rightarrow> bodyLength b | WriteDirectory _ _ \<Rightarrow> 0);
          result = replicate (4 + 16 + (case lfhOffset of None \<Rightarrow> 0 | Some _ \<Rightarrow> 8) + 4 + 13) 0;
          result = setUint16 0 0x1 result;
          result = setBigUint64 4 osz result;
          result = setBigUint64 12 csz result;
          (result, pos) =
            (case lfhOffset of
               None \<Rightarrow> (setUint16 2 16 result, 20)
             | Some off \<Rightarrow> (setBigUint64 20 off (setUint16 2 24 result), 28));
          (result, pos) =
            (case extendedTimestamps entry of
               None \<Rightarrow> (result, pos)
             | Some ts \<Rightarrow>
                 (let result = setUint16 pos 0x5455 result;
                      (result, xLen, flags) = putTime pos 0x1 (modifyTime ts) (result, 1, 0);
                      (result, xLen, flags) = putTime pos 0x2 (accessTime ts) (result, xLen, flags);
                      (result, xLen, flags) = putTime pos 0x4 (createTime ts) (result, xLen, flags);
                      result = setUint16 (pos + 2) xLen result;
                      result = setUint8 (pos + 4) flags result
                  in (result, pos + 4 + xLen)))
      in if pos = 0 then None else Some (take pos result))"


subsection \<open>The extra field in closed form\<close>

text \<open>
  \<open>timesRecord\<close>: the extended-timestamp record as a sequence of fields: the tag
  \<open>0x5455\<close>, the length of the payload, the flag byte, and four bytes for each time
  that is set.
\<close>

definition timesRecord :: "ExtendedTimestamps option \<Rightarrow> byte list" where
  "timesRecord tso =
     (case tso of
        None \<Rightarrow> []
      | Some ts \<Rightarrow>
          (let present = (\<lambda>t. case t of None \<Rightarrow> (0::nat) | Some _ \<Rightarrow> 1);
               enc = (\<lambda>t. case t of None \<Rightarrow> [] | Some ms \<Rightarrow> le_bytes 4 (ToUint32 (seconds ms)))
           in le_bytes 2 0x5455 @
              le_bytes 2 (1 + 4 * (present (modifyTime ts) + present (accessTime ts) + present (createTime ts))) @
              le_bytes 1 (present (modifyTime ts) + 2 * present (accessTime ts) + 4 * present (createTime ts)) @
              enc (modifyTime ts) @ enc (accessTime ts) @ enc (createTime ts)))"

lemma setBytes_append1:
  "off + length src \<le> length a \<Longrightarrow> setBytes off src (a @ b) = setBytes off src a @ b"
  by (simp add: setBytes_def)

lemma setBytes_append2:
  "length a \<le> off \<Longrightarrow> setBytes off src (a @ b) = a @ setBytes (off - length a) src b"
  by (simp add: setBytes_def)

lemma setBytes_replicate:
  "off + length src \<le> n \<Longrightarrow>
   setBytes off src (replicate n x) = replicate off x @ src @ replicate (n - off - length src) x"
  by (simp add: setBytes_def min_def)

lemma setBytes_whole:
  "length src = length a \<Longrightarrow> setBytes 0 src a = src"
  by (simp add: setBytes_def)

lemma setBytes_Nil: "setBytes 0 [] xs = xs"
  by (simp add: setBytes_def)

lemma setBytes_Cons: "setBytes 0 (b # bs) (x # xs) = b # setBytes 0 bs xs"
  by (simp add: setBytes_def)

lemmas setBytes_blocks = setBytes_append1 setBytes_append2 setBytes_replicate setBytes_whole
  setBytes_Nil setBytes_Cons




lemma createExtraField_local_None:
  "extendedTimestamps entry = None \<Longrightarrow> createExtraField entry None =
     Some (le_bytes 2 1 @ le_bytes 2 16 @
           le_bytes 8 (case entry of WriteFile _ _ b \<Rightarrow> originalSize b | WriteDirectory _ _ \<Rightarrow> 0) @
           le_bytes 8 (case entry of WriteFile _ _ b \<Rightarrow> bodyLength b | WriteDirectory _ _ \<Rightarrow> 0))"
    by (simp add: createExtraField_def setUint16_def setBigUint64_def setBytes_blocks)


lemma createExtraField_local:
  "createExtraField entry None =
     Some (le_bytes 2 1 @ le_bytes 2 16 @
           le_bytes 8 (case entry of WriteFile _ _ b \<Rightarrow> originalSize b | WriteDirectory _ _ \<Rightarrow> 0) @
           le_bytes 8 (case entry of WriteFile _ _ b \<Rightarrow> bodyLength b | WriteDirectory _ _ \<Rightarrow> 0) @
           timesRecord (extendedTimestamps entry))"
proof (cases "extendedTimestamps entry")
  case None
  then show ?thesis
    by (simp add: createExtraField_local_None timesRecord_def)
next
  case (Some ts)
  show ?thesis
  proof (cases "modifyTime ts"; cases "accessTime ts"; cases "createTime ts")
  qed (simp_all add: Some createExtraField_def timesRecord_def setUint16_def setUint8_def setUint32_def
        putTime_def setBigUint64_def setBytes_blocks)
qed


lemma createExtraField_central:
  "createExtraField entry (Some off) =
     Some (le_bytes 2 1 @ le_bytes 2 24 @
           le_bytes 8 (case entry of WriteFile _ _ b \<Rightarrow> originalSize b | WriteDirectory _ _ \<Rightarrow> 0) @
           le_bytes 8 (case entry of WriteFile _ _ b \<Rightarrow> bodyLength b | WriteDirectory _ _ \<Rightarrow> 0) @
           le_bytes 8 off @
           timesRecord (extendedTimestamps entry))"
proof (cases "extendedTimestamps entry")
  case None
  then show ?thesis
    by (simp add: createExtraField_def timesRecord_def setUint16_def setBigUint64_def setBytes_blocks)
next
  case (Some ts)
  show ?thesis
  proof (cases "modifyTime ts"; cases "accessTime ts"; cases "createTime ts")
  qed (simp_all add: Some createExtraField_def timesRecord_def setUint16_def setUint8_def setUint32_def
        putTime_def setBigUint64_def setBytes_blocks)
qed

subsection \<open>Headers, entries and the archive\<close>

text \<open>
  \<open>localFileHeaderStart\<close> is the 30-byte block \<^verbatim>\<open>writeLocalFileEntry\<close> fills in
  (lines 194 to 228), \<open>centralDirectoryFileHeaders\<close> the thunk it returns, applied.
  \<open>writeLocalFileEntry\<close> returns the chunks written to the sink, and the result or
  the error thrown. \<open>write_entries\<close> is the \<^verbatim>\<open>for await\<close> loop of \<^verbatim>\<open>write\<close> over
  \<^verbatim>\<open>centralDirectoryFileHeaders\<close>, \<^verbatim>\<open>totalBytesWritten\<close> and
  \<^verbatim>\<open>totalFilesWritten\<close>; \<open>ending\<close> is the 98-byte block of the three end records;
  \<open>zip_write\<close> is \<^verbatim>\<open>write\<close>: the chunks of the stream it returns and the error the
  stream fails with, if any.
\<close>

definition isDeflate :: "WriteEntry \<Rightarrow> bool" where
  "isDeflate entry = (case entry of WriteFile _ _ (Deflate _ _ _ _) \<Rightarrow> True | _ \<Rightarrow> False)"

definition localFileHeaderStart :: "WriteEntry \<Rightarrow> nat \<Rightarrow> byte list option \<Rightarrow> byte list" where
  "localFileHeaderStart entry fileNameLength extraField =
     (let h = replicate 30 0;
          h = setUint32 0 0x04034b50 h;
          h = setUint16 4 45 h;
          h = (if isDeflate entry then setUint16 8 8 h else h);
          h = (case entry of
                 WriteFile _ _ b \<Rightarrow> setUint32 14 (ToUint32 (originalCrc b)) h
               | WriteDirectory _ _ \<Rightarrow> h);
          h = setUint32 18 0xffffffff h;
          h = setUint32 22 0xffffffff h;
          h = setUint16 26 fileNameLength h;
          h = setUint16 28 (case extraField of None \<Rightarrow> 0 | Some ef \<Rightarrow> length ef) h
      in h)"

definition centralDirectoryFileHeaders :: "WriteEntry \<Rightarrow> byte list \<Rightarrow> nat \<Rightarrow> chunk list" where
  "centralDirectoryFileHeaders entry fileName lfhOffset =
     (let h = replicate 46 0;
          h = setUint32 0 0x02014b50 h;
          h = setUint16 4 45 h;
          h = setUint16 6 45 h;
          h = setUint16 8 0 h;
          h = (if isDeflate entry then setUint16 10 8 h else h);
          h = (case entry of
                 WriteFile _ _ b \<Rightarrow> setUint32 16 (ToUint32 (originalCrc b)) h
               | WriteDirectory _ _ \<Rightarrow> h);
          h = setUint32 20 0xffffffff h;
          h = setUint32 24 0xffffffff h;
          h = setUint16 28 (length fileName) h;
          centralHeaderExtraField = createExtraField entry (Some lfhOffset);
          h = setUint16 30 (case centralHeaderExtraField of None \<Rightarrow> 0 | Some ef \<Rightarrow> length ef) h;
          h = setUint32 42 0xffffffff h
      in [h, fileName] @ (case centralHeaderExtraField of None \<Rightarrow> [] | Some ef \<Rightarrow> [ef]))"

record WriteLocalFileEntryResult =
  bytesWritten :: nat
  cdFileHeaders :: "chunk list"

definition writeLocalFileEntry ::
  "WriteEntry \<Rightarrow> nat \<Rightarrow> chunk list \<times> (error + WriteLocalFileEntryResult)" where
  "writeLocalFileEntry entry lfhOffset =
     (let fileName = TextEncoder_encode (name entry) in
      if length fileName \<ge> 2 ^ 16 then ([], Inl FilenameTooLong)
      else
        (let extraField = createExtraField entry None;
             header = localFileHeaderStart entry (length fileName) extraField;
             written = [header, fileName] @ (case extraField of None \<Rightarrow> [] | Some ef \<Rightarrow> [ef]);
             n = length header + length fileName +
                   (case extraField of None \<Rightarrow> 0 | Some ef \<Rightarrow> length ef);
             thunk = centralDirectoryFileHeaders entry fileName lfhOffset
         in (case entry of
               WriteDirectory _ _ \<Rightarrow>
                 (written, Inr \<lparr>bytesWritten = n, cdFileHeaders = thunk\<rparr>)
             | WriteFile _ _ b \<Rightarrow>
                 (case ExactBytesTransformStream (bodyLength b) (stream b) of
                    (out, Some e) \<Rightarrow> (written @ out, Inl e)
                  | (out, None) \<Rightarrow>
                      (written @ out,
                       Inr \<lparr>bytesWritten = n + bodyLength b, cdFileHeaders = thunk\<rparr>)))))"

fun write_entries ::
  "WriteEntry list \<Rightarrow> bool \<Rightarrow> chunk list \<Rightarrow> nat \<Rightarrow> nat \<Rightarrow>
   chunk list \<times> (error + (chunk list \<times> nat \<times> nat))" where
  "write_entries [] omitCD cdfh totalBytesWritten totalFilesWritten =
     ([], Inr (cdfh, totalBytesWritten, totalFilesWritten))"
| "write_entries (entry # entries) omitCD cdfh totalBytesWritten totalFilesWritten =
     (case writeLocalFileEntry entry totalBytesWritten of
        (out, Inl e) \<Rightarrow> (out, Inl e)
      | (out, Inr result) \<Rightarrow>
          (case write_entries entries omitCD
                  (if \<not> omitCD then cdfh @ cdFileHeaders result else cdfh)
                  (totalBytesWritten + bytesWritten result) (totalFilesWritten + 1) of
             (outs, r) \<Rightarrow> (out @ outs, r)))"

definition ending :: "nat \<Rightarrow> nat \<Rightarrow> nat \<Rightarrow> byte list" where
  "ending totalFilesWritten offsetOfCentralDirectory totalBytesWritten =
     (let e = replicate (56 + 20 + 22) 0;
          e = setUint32 0 0x06064b50 e;
          e = setBigUint64 4 (56 - 12) e;
          e = setUint16 12 45 e;
          e = setUint16 14 45 e;
          e = setBigUint64 24 totalFilesWritten e;
          e = setBigUint64 32 totalFilesWritten e;
          e = setBigUint64 40 (totalBytesWritten - offsetOfCentralDirectory) e;
          e = setBigUint64 48 offsetOfCentralDirectory e;
          e = setUint32 (56 + 0) 0x07064b50 e;
          e = setBigUint64 (56 + 8) totalBytesWritten e;
          e = setUint32 (56 + 16) 1 e;
          e = setUint32 (76 + 0) 0x06054b50 e;
          e = setUint16 (76 + 8) 0xffff e;
          e = setUint16 (76 + 10) 0xffff e;
          e = setUint32 (76 + 12) 0xffffffff e;
          e = setUint32 (76 + 16) 0xffffffff e
      in e)"

definition zip_write :: "WriteEntry list \<Rightarrow> bool \<Rightarrow> chunk list \<times> error option" where
  "zip_write entries omitCentralDirectory =
     (case write_entries entries omitCentralDirectory [] 0 0 of
        (out, Inl e) \<Rightarrow> (out, Some e)
      | (out, Inr (cdfh, totalBytesWritten, totalFilesWritten)) \<Rightarrow>
          if \<not> omitCentralDirectory
          then (out @ cdfh @ [ending totalFilesWritten totalBytesWritten (totalBytesWritten + total cdfh)],
                None)
          else (out, None))"



subsection \<open>Properties of the headers\<close>

lemma le_bytes_zero: "le_bytes k 0 = replicate k 0"
  by (induction k) auto

lemma getUint_append1:
  "off + k \<le> length a \<Longrightarrow> getUint k off (a @ b) = getUint k off a"
  by (simp add: getUint_def readUint_def)

lemma getUint_append2:
  "length a \<le> off \<Longrightarrow> getUint k off (a @ b) = getUint k (off - length a) b"
  by (auto simp: getUint_def readUint_def)

lemma getUint_le_bytes: "getUint k 0 (le_bytes k v) = Inr (v mod 256 ^ k)"
  by (simp add: getUint_def readUint_def le_val_le_bytes)

lemma getUint_replicate: "getUint k 0 (replicate k 0) = Inr 0"
  using getUint_le_bytes [of k 0] by (simp add: le_bytes_zero)

lemmas getUint_blocks = getUint_append1 getUint_append2 getUint_le_bytes getUint_replicate

definition crcField :: "WriteEntry \<Rightarrow> nat" where
  "crcField entry = (case entry of WriteFile _ _ b \<Rightarrow> ToUint32 (originalCrc b) | WriteDirectory _ _ \<Rightarrow> 0)"

lemma localFileHeaderStart_closed:
  "localFileHeaderStart entry n ef =
     le_bytes 4 0x04034b50 @ le_bytes 2 45 @ le_bytes 2 0 @
     le_bytes 2 (if isDeflate entry then 8 else 0) @ le_bytes 4 0 @
     le_bytes 4 (crcField entry) @
     le_bytes 4 0xffffffff @ le_bytes 4 0xffffffff @ le_bytes 2 n @
     le_bytes 2 (case ef of None \<Rightarrow> 0 | Some x \<Rightarrow> length x)"
  by (cases entry; cases "isDeflate entry")
     (simp_all add: localFileHeaderStart_def crcField_def setUint16_def setUint32_def setBytes_blocks
        le_bytes_zero replicate_add [symmetric])

lemma header_fields:
  "length (localFileHeaderStart entry n ef) = 30"
  "getUint 4 0 (localFileHeaderStart entry n ef) = Inr 0x04034b50"
  "getUint 2 4 (localFileHeaderStart entry n ef) = Inr 45"
  "getUint 2 6 (localFileHeaderStart entry n ef) = Inr 0"
  "getUint 2 8 (localFileHeaderStart entry n ef) = Inr (if isDeflate entry then 8 else 0)"
  "getUint 4 14 (localFileHeaderStart entry n ef) = Inr (crcField entry mod 2 ^ 32)"
  "getUint 4 18 (localFileHeaderStart entry n ef) = Inr 0xffffffff"
  "getUint 4 22 (localFileHeaderStart entry n ef) = Inr 0xffffffff"
  "getUint 2 26 (localFileHeaderStart entry n ef) = Inr (n mod 2 ^ 16)"
  "getUint 2 28 (localFileHeaderStart entry n ef) = Inr ((case ef of None \<Rightarrow> 0 | Some x \<Rightarrow> length x) mod 2 ^ 16)"
  by (simp_all add: localFileHeaderStart_closed getUint_blocks)


lemma ToUint32_less: "ToUint32 v < 2 ^ 32"
  by (simp add: ToUint32_def nat_less_iff)

lemma crcField_less: "crcField entry < 2 ^ 32"
  using ToUint32_less by (cases entry) (simp_all add: crcField_def)

lemma length_timesRecord: "length (timesRecord tso) \<le> 17"
  by (cases tso) (auto simp: timesRecord_def Let_def split: option.splits)

lemma timesRecord_tag:
  "getUint16 0 (timesRecord (Some ts)) = Inr 0x5455"
  by (simp add: timesRecord_def getUint16_def getUint_blocks Let_def)

definition entryOriginalSize :: "WriteEntry \<Rightarrow> nat" where
  "entryOriginalSize entry = (case entry of WriteFile _ _ b \<Rightarrow> originalSize b | WriteDirectory _ _ \<Rightarrow> 0)"

definition entryCompressedSize :: "WriteEntry \<Rightarrow> nat" where
  "entryCompressedSize entry = (case entry of WriteFile _ _ b \<Rightarrow> bodyLength b | WriteDirectory _ _ \<Rightarrow> 0)"

definition localExtraField :: "WriteEntry \<Rightarrow> byte list" where
  "localExtraField entry =
     le_bytes 2 0x0001 @ le_bytes 2 16 @
     le_bytes 8 (entryOriginalSize entry) @ le_bytes 8 (entryCompressedSize entry) @
     timesRecord (extendedTimestamps entry)"

lemma createExtraField_None: "createExtraField entry None = Some (localExtraField entry)"
  by (simp add: createExtraField_local localExtraField_def entryOriginalSize_def entryCompressedSize_def)

lemma length_localExtraField:
  "20 \<le> length (localExtraField entry)" "length (localExtraField entry) \<le> 37"
  using length_timesRecord [of "extendedTimestamps entry"] by (simp_all add: localExtraField_def)

lemma writeLocalFileEntry_chunks:
  assumes "length (TextEncoder_encode (name entry)) < 2 ^ 16"
  shows "\<exists>body. fst (writeLocalFileEntry entry lfhOffset) =
           localFileHeaderStart entry (length (TextEncoder_encode (name entry))) (Some (localExtraField entry)) #
           TextEncoder_encode (name entry) # localExtraField entry # body"
  using assms
  by (cases entry)
     (auto simp: writeLocalFileEntry_def createExtraField_None Let_def split: prod.splits option.splits)

subsection \<open>Claims about the writer\<close>

text \<open>
  C8. For every write entry whose name the writer accepts (fewer than \<open>2^16\<close> bytes),
  the writer emits first a 30-byte local file header, then the name, then the extra
  field. The header has the local signature, version-needed 45, compression method 8
  if the entry is deflate-precompressed and 0 otherwise, the CRC-32 field set from
  \<^verbatim>\<open>originalCrc\<close> (zero for a directory), both 32-bit size fields \<open>0xffffffff\<close>, and
  the lengths of the name and of the extra field. The sizes are in the extra field:
  the ZIP64 record comes first (tag \<open>0x0001\<close>, length 16 with the two sizes in a
  local header, length 24 with the sizes and the offset in a central header), followed
  by the extended-timestamp record (tag \<open>0x5455\<close>) whenever the entry has timestamps.
\<close>

theorem C8_local_file_header:
  assumes "length (TextEncoder_encode (name entry)) < 2 ^ 16"
  shows "\<exists>header ef body.
     fst (writeLocalFileEntry entry lfhOffset) = header # TextEncoder_encode (name entry) # ef # body \<and>
     length header = 30 \<and>
     getUint32 0 header = Inr 0x04034b50 \<and>
     getUint16 4 header = Inr 45 \<and>
     getUint16 8 header = Inr (if isDeflate entry then 8 else 0) \<and>
     getUint32 14 header =
       Inr (case entry of WriteFile _ _ b \<Rightarrow> ToUint32 (originalCrc b) | WriteDirectory _ _ \<Rightarrow> 0) \<and>
     getUint32 18 header = Inr 0xffffffff \<and>
     getUint32 22 header = Inr 0xffffffff \<and>
     getUint16 26 header = Inr (length (TextEncoder_encode (name entry))) \<and>
     getUint16 28 header = Inr (length ef) \<and>
     createExtraField entry None = Some ef \<and>
     ef = le_bytes 2 0x0001 @ le_bytes 2 16 @
          le_bytes 8 (entryOriginalSize entry) @ le_bytes 8 (entryCompressedSize entry) @
          timesRecord (extendedTimestamps entry) \<and>
     createExtraField entry (Some lfhOffset) =
       Some (le_bytes 2 0x0001 @ le_bytes 2 24 @
             le_bytes 8 (entryOriginalSize entry) @ le_bytes 8 (entryCompressedSize entry) @
             le_bytes 8 lfhOffset @ timesRecord (extendedTimestamps entry)) \<and>
     (\<forall>ts. extendedTimestamps entry = Some ts \<longrightarrow>
        getUint16 0 (timesRecord (extendedTimestamps entry)) = Inr 0x5455)"
proof -
  let ?n = "length (TextEncoder_encode (name entry))"
  let ?ef = "localExtraField entry"
  let ?h = "localFileHeaderStart entry ?n (Some ?ef)"
  from writeLocalFileEntry_chunks [OF assms] obtain body where
    w: "fst (writeLocalFileEntry entry lfhOffset) = ?h # TextEncoder_encode (name entry) # ?ef # body"
    by blast
  have l: "length ?ef < 2 ^ 16" using length_localExtraField(2) [of entry] by simp
  have c: "crcField entry = (case entry of WriteFile _ _ b \<Rightarrow> ToUint32 (originalCrc b) | WriteDirectory _ _ \<Rightarrow> 0)"
    by (simp add: crcField_def)
  have f: "length ?h = 30" "getUint32 0 ?h = Inr 0x04034b50" "getUint16 4 ?h = Inr 45"
    "getUint16 8 ?h = Inr (if isDeflate entry then 8 else 0)"
    "getUint32 14 ?h = Inr (crcField entry)"
    "getUint32 18 ?h = Inr 0xffffffff" "getUint32 22 ?h = Inr 0xffffffff"
    "getUint16 26 ?h = Inr ?n" "getUint16 28 ?h = Inr (length ?ef)"
    using assms l crcField_less [of entry]
    by (simp_all add: header_fields getUint16_def getUint32_def)
  have t: "getUint16 0 (timesRecord (extendedTimestamps entry)) = Inr 0x5455"
    if "extendedTimestamps entry = Some ts" for ts
    using that timesRecord_tag [of ts] by simp
  show ?thesis
    using w f c t createExtraField_None [of entry] createExtraField_central [of entry lfhOffset]
    by (intro exI [of _ ?h] exI [of _ ?ef] exI [of _ body])
       (simp add: localExtraField_def entryOriginalSize_def entryCompressedSize_def)
qed

lemma le_bytes_numeral:
  "le_bytes (numeral k) v = word_of_nat v # le_bytes (pred_numeral k) (v div 256)"
  by (simp only: numeral_eq_Suc le_bytes.simps)

lemma le_bytes_Suc0: "le_bytes (Suc 0) v = [word_of_nat v]"
  by simp

theorem C8_local_file_header_witness:
  "length (TextEncoder_encode (name (WriteFile ''a'' (Some \<lparr>modifyTime = Some 5000, accessTime = None, createTime = None\<rparr>)
       (Deflate 600 3 7 [[1, 2, 3]])))) < 2 ^ 16 \<and>
   map (map unat) (fst (writeLocalFileEntry (WriteFile ''a'' (Some \<lparr>modifyTime = Some 5000, accessTime = None, createTime = None\<rparr>)
       (Deflate 600 3 7 [[1, 2, 3]])) 0)) =
     [[80, 75, 3, 4, 45, 0, 0, 0, 8, 0, 0, 0, 0, 0, 7, 0, 0, 0,
       255, 255, 255, 255, 255, 255, 255, 255, 1, 0, 29, 0],
      [97],
      [1, 0, 16, 0, 88, 2, 0, 0, 0, 0, 0, 0, 3, 0, 0, 0, 0, 0, 0, 0,
       85, 84, 5, 0, 1, 5, 0, 0, 0],
      [1, 2, 3]]"
proof -
  let ?e = "WriteFile ''a'' (Some \<lparr>modifyTime = Some 5000, accessTime = None, createTime = None\<rparr>)
       (Deflate 600 3 7 [[1, 2, 3]])"
  have n: "length (TextEncoder_encode (name ?e)) < 2 ^ 16"
    by (simp add: TextEncoder_encode_def)
  have w: "map (map unat) (fst (writeLocalFileEntry ?e 0)) =
     [[80, 75, 3, 4, 45, 0, 0, 0, 8, 0, 0, 0, 0, 0, 7, 0, 0, 0,
       255, 255, 255, 255, 255, 255, 255, 255, 1, 0, 29, 0],
      [97],
      [1, 0, 16, 0, 88, 2, 0, 0, 0, 0, 0, 0, 3, 0, 0, 0, 0, 0, 0, 0,
       85, 84, 5, 0, 1, 5, 0, 0, 0],
      [1, 2, 3]]"
    by (simp add: writeLocalFileEntry_def createExtraField_None localExtraField_def
        localFileHeaderStart_closed timesRecord_def entryOriginalSize_def entryCompressedSize_def
        bodyLength_def isDeflate_def crcField_def ToUint32_def seconds_def TextEncoder_encode_def
        ExactBytesTransformStream_def ExactBytes_transform_def ExactBytes_flush_def
        le_bytes_numeral Let_def)
  from C8_local_file_header [OF n, of 0] n w show ?thesis
    by blast
qed

text \<open>
  C9. For every write entry, and for local and central headers alike,
  \<^verbatim>\<open>createExtraField\<close> returns a defined extra field of at least 20 bytes: the branch
  that returns \<^verbatim>\<open>undefined\<close> is never taken. So every local file header the writer
  emits holds an extra-field length of at least 20.
\<close>

theorem C9_extra_field_defined:
  "(\<exists>ef. createExtraField entry lfhOffset = Some ef \<and> 20 \<le> length ef) \<and>
   (length (TextEncoder_encode (name entry)) < 2 ^ 16 \<longrightarrow>
      (\<exists>header rest n. fst (writeLocalFileEntry entry off) = header # rest \<and>
          getUint16 28 header = Inr n \<and> 20 \<le> n))"
proof
  show "\<exists>ef. createExtraField entry lfhOffset = Some ef \<and> 20 \<le> length ef"
  proof (cases lfhOffset)
    case None
    then show ?thesis using createExtraField_None [of entry] length_localExtraField(1) [of entry] by simp
  next
    case (Some x)
    then show ?thesis using createExtraField_central [of entry x] by simp
  qed
next
  show "length (TextEncoder_encode (name entry)) < 2 ^ 16 \<longrightarrow>
      (\<exists>header rest n. fst (writeLocalFileEntry entry off) = header # rest \<and>
          getUint16 28 header = Inr n \<and> 20 \<le> n)"
  proof
    assume a: "length (TextEncoder_encode (name entry)) < 2 ^ 16"
    from writeLocalFileEntry_chunks [OF a, of off] obtain body where
      w: "fst (writeLocalFileEntry entry off) =
           localFileHeaderStart entry (length (TextEncoder_encode (name entry))) (Some (localExtraField entry)) #
           TextEncoder_encode (name entry) # localExtraField entry # body"
      by blast
    have "getUint16 28 (localFileHeaderStart entry (length (TextEncoder_encode (name entry))) (Some (localExtraField entry)))
        = Inr (length (localExtraField entry))"
      using length_localExtraField(2) [of entry] by (simp add: header_fields getUint16_def)
    with w length_localExtraField(1) [of entry] show "\<exists>header rest n. fst (writeLocalFileEntry entry off) = header # rest \<and>
          getUint16 28 header = Inr n \<and> 20 \<le> n"
      by blast
  qed
qed

theorem C9_extra_field_defined_witness:
  "length (TextEncoder_encode (name (WriteDirectory ''d/'' None))) < 2 ^ 16 \<and>
   map_option (map unat) (createExtraField (WriteDirectory ''d/'' None) None)
     = Some [1, 0, 16, 0, 0, 0, 0, 0, 0, 0, 0, 0, 0, 0, 0, 0, 0, 0, 0, 0] \<and>
   (\<exists>header rest n. fst (writeLocalFileEntry (WriteDirectory ''d/'' None) 0) = header # rest \<and>
      getUint16 28 header = Inr n \<and> 20 \<le> n)"
proof -
  have n: "length (TextEncoder_encode (name (WriteDirectory ''d/'' None))) < 2 ^ 16"
    by (simp add: TextEncoder_encode_def)
  have e: "map_option (map unat) (createExtraField (WriteDirectory ''d/'' None) None)
     = Some [1, 0, 16, 0, 0, 0, 0, 0, 0, 0, 0, 0, 0, 0, 0, 0, 0, 0, 0, 0]"
    by (simp add: createExtraField_None localExtraField_def timesRecord_def
        entryOriginalSize_def entryCompressedSize_def le_bytes_numeral)
  from C9_extra_field_defined [of "WriteDirectory ''d/'' None" None 0] n e show ?thesis
    by blast
qed

section \<open>The stream reader\<close>

text \<open>
  \<^verbatim>\<open>read.ts\<close> and \<^verbatim>\<open>_read_extra_field.ts\<close>. The cancel of the upstream reader
  with which \<^verbatim>\<open>read\<close> ends, after the loop and in its \<^verbatim>\<open>catch\<close> block, has no
  part in what \<^verbatim>\<open>read\<close> yields and is left out.
\<close>

subsection \<open>The extra field\<close>

text \<open>
  \<open>readTime\<close> is one of the three \<^verbatim>\<open>if (flags & bit)\<close> blocks of the timestamp case,
  \<open>parseZip64\<close> and \<open>parseTimestamps\<close> are the two cases of the \<^verbatim>\<open>switch\<close>, and
  \<open>parseExtraField_loop\<close> is the \<^verbatim>\<open>for\<close> loop of \<^verbatim>\<open>parseExtraField\<close> over the
  generator \<^verbatim>\<open>splitExtraFieldParts\<close>: a part is parsed before the next one is split
  off. A getter that reads beyond the part's data throws RangeError.
\<close>

text \<open>
  \<^verbatim>\<open>Number(n)\<close> of a BigInt \<open>n\<close>: the number nearest to \<open>n\<close>, which is \<open>n\<close> itself
  below \<open>2^53\<close>; above, the 53 leading bits of \<open>n\<close>, rounded to nearest by the
  bits that follow (a tie goes to the even neighbour), scaled back.
\<close>

fun bit_length :: "nat \<Rightarrow> nat" where
  "bit_length n = (if n = 0 then 0 else Suc (bit_length (n div 2)))"

declare bit_length.simps [simp del]

definition Number :: "nat \<Rightarrow> nat" where
  "Number v =
     (if v < 2 ^ 53 then v
      else
        (let e = bit_length v - 53;
             q = v div 2 ^ e;
             r = v mod 2 ^ e;
             half = 2 ^ (e - 1)
         in (if r > half \<or> (r = half \<and> odd q) then q + 1 else q) * 2 ^ e))"

record Zip64ExtendedInformation =
  zip64_originalSize :: nat
  zip64_compressedSize :: nat

record ParsedExtraFields =
  zip64 :: "Zip64ExtendedInformation option"
  parsedTimestamps :: "ExtendedTimestamps option"

definition readTime :: "nat \<Rightarrow> nat \<Rightarrow> byte list \<Rightarrow> nat \<Rightarrow> error + (int option \<times> nat)" where
  "readTime flagBit flags data pos =
     (if flags AND flagBit \<noteq> 0 then
        (case getInt32 pos data of
           Inl e \<Rightarrow> Inl e
         | Inr s \<Rightarrow> Inr (Some (s * 1000), pos + 4))
      else Inr (None, pos))"

definition parseTimestamps :: "byte list \<Rightarrow> error + ExtendedTimestamps" where
  "parseTimestamps data =
     (case getUint8 0 data of
        Inl e \<Rightarrow> Inl e
      | Inr flags \<Rightarrow>
     (case readTime 0x1 flags data 1 of
        Inl e \<Rightarrow> Inl e
      | Inr (m, pos) \<Rightarrow>
     (case readTime 0x2 flags data pos of
        Inl e \<Rightarrow> Inl e
      | Inr (a, pos) \<Rightarrow>
     (case readTime 0x4 flags data pos of
        Inl e \<Rightarrow> Inl e
      | Inr (c, pos) \<Rightarrow> Inr \<lparr>modifyTime = m, accessTime = a, createTime = c\<rparr>))))"

definition parseZip64 :: "byte list \<Rightarrow> error + Zip64ExtendedInformation" where
  "parseZip64 data =
     (case getBigUint64 0 data of
        Inl e \<Rightarrow> Inl e
      | Inr osz \<Rightarrow>
     (case getBigUint64 8 data of
        Inl e \<Rightarrow> Inl e
      | Inr csz \<Rightarrow>
          Inr \<lparr>zip64_originalSize = Number osz, zip64_compressedSize = Number csz\<rparr>))"

definition parsePart :: "nat \<Rightarrow> byte list \<Rightarrow> ParsedExtraFields \<Rightarrow> error + ParsedExtraFields" where
  "parsePart tag data result =
     (if tag = 0x1 then
        (case parseZip64 data of Inl e \<Rightarrow> Inl e | Inr z \<Rightarrow> Inr (result\<lparr>zip64 := Some z\<rparr>))
      else if tag = 0x5455 then
        (case parseTimestamps data of
           Inl e \<Rightarrow> Inl e
         | Inr ts \<Rightarrow> Inr (result\<lparr>parsedTimestamps := Some ts\<rparr>))
      else Inr result)"

function parseExtraField_loop :: "byte list \<Rightarrow> nat \<Rightarrow> ParsedExtraFields \<Rightarrow> error + ParsedExtraFields" where
  "parseExtraField_loop extraField pos result =
     (if length extraField \<ge> pos + 4 then
        (let tag = readUint 2 pos extraField;
             len = readUint 2 (pos + 2) extraField
         in if pos + 4 + len > length extraField then Inl InvalidExtraField
            else
              (case parsePart tag (take len (drop (pos + 4) extraField)) result of
                 Inl e \<Rightarrow> Inl e
               | Inr result' \<Rightarrow> parseExtraField_loop extraField (pos + 4 + len) result'))
      else Inr result)"
  by pat_completeness auto
termination
  by (relation "measure (\<lambda>(extraField, pos, result). length extraField - pos)") auto

declare parseExtraField_loop.simps [simp del]

definition parseExtraField :: "byte list \<Rightarrow> error + ParsedExtraFields" where
  "parseExtraField extraField =
     parseExtraField_loop extraField 0 \<lparr>zip64 = None, parsedTimestamps = None\<rparr>"

subsection \<open>The body handle\<close>

text \<open>
  The object \<^verbatim>\<open>body\<close> of \<^verbatim>\<open>read\<close> closes over the variable
  \<^verbatim>\<open>bodyMethodFinished\<close> (undefined, or the promise of the body's completion) and the
  compression method of the header. \<open>BodyHandle\<close> holds whether the variable is set,
  and the method. \<open>body_stream\<close> and \<open>body_autodrain\<close> are the two methods: what the
  call returns or throws, and the handle after it. \<^verbatim>\<open>stream()\<close> assigns the variable
  before it looks at the compression method. What the returned stream delivers, and
  what the skip does to the reader, is in \<open>consume_body\<close> below.
\<close>

record BodyHandle =
  bodyMethodFinished :: bool
  compressionMethod :: nat

datatype BodyStream = StoredBody | DeflateBody

definition body_stream :: "BodyHandle \<Rightarrow> (error + BodyStream) \<times> BodyHandle" where
  "body_stream h =
     (if bodyMethodFinished h then (Inl BodyAlreadyUsed, h)
      else
        (let h' = h\<lparr>bodyMethodFinished := True\<rparr>
         in if compressionMethod h = 0 then (Inr StoredBody, h')
            else if compressionMethod h = 8 then (Inr DeflateBody, h')
            else (Inl UnknownCompressionMethod, h')))"

definition body_autodrain :: "BodyHandle \<Rightarrow> (error + unit) \<times> BodyHandle" where
  "body_autodrain h =
     (if bodyMethodFinished h then (Inl BodyAlreadyUsed, h)
      else (Inr (), h\<lparr>bodyMethodFinished := True\<rparr>))"

datatype BodyCall = CallStream | CallAutodrain

fun body_call :: "BodyCall \<Rightarrow> BodyHandle \<Rightarrow> error option \<times> BodyHandle" where
  "body_call CallStream h =
     (case body_stream h of (Inl e, h') \<Rightarrow> (Some e, h') | (Inr _, h') \<Rightarrow> (None, h'))"
| "body_call CallAutodrain h =
     (case body_autodrain h of (Inl e, h') \<Rightarrow> (Some e, h') | (Inr _, h') \<Rightarrow> (None, h'))"

fun body_calls :: "BodyCall list \<Rightarrow> BodyHandle \<Rightarrow> error option list" where
  "body_calls [] h = []"
| "body_calls (c # cs) h = (case body_call c h of (r, h') \<Rightarrow> r # body_calls cs h')"

subsection \<open>The parse loop\<close>

text \<open>
  The platform's gzip decompressor is a parameter, \<open>gunzip\<close>: the decompressed bytes
  of a gzip stream, or \<open>None\<close> when the decompressor rejects it.
  \<open>decompressDeflateRaw\<close> (\<^verbatim>\<open>_deflate_raw.ts\<close>) frames the raw deflate bytes with the
  gzip header and the trailer of CRC and size.

  The consumer of \<^verbatim>\<open>read\<close> is a parameter too: for each file entry it chooses what to
  do with the body before it asks for the next entry (\<open>BodyUse\<close>): pipe
  \<^verbatim>\<open>body.stream()\<close> to its end, call \<^verbatim>\<open>body.autodrain()\<close>, or neither.
  \<open>consume_body\<close> is that choice carried out on a fresh handle, followed by the
  \<^verbatim>\<open>if (!bodyMethodFinished) throw\<close> and the \<^verbatim>\<open>await bodyMethodFinished\<close> of the loop:
  the bytes the consumer collected, and the reader afterwards. An error of the
  consumer's pipe ends the iteration with that error.

  The abort signal of \<^verbatim>\<open>ReadOptions\<close> is the parameter \<open>signal\<close>: \<open>None\<close> when
  the option is absent, \<open>Some None\<close> for a signal that never fires,
  \<open>Some (Some t)\<close> for a signal that fires during the \<open>t\<close>-th await of \<^verbatim>\<open>read\<close>, and
  \<open>Some (Some 0)\<close> for one that had fired before \<^verbatim>\<open>read\<close> was called. The awaits
  are counted by \<open>now\<close>, from 1: an iteration that begins at \<open>now\<close> awaits the header
  at \<open>now\<close>, the name at \<open>now + 1\<close>, the extra field at \<open>now + 2\<close>, the consumer and
  the body at \<open>now + 3\<close>, and the next iteration begins at \<open>now + 4\<close>; an iteration
  that leaves the loop awaits \<^verbatim>\<open>partialReader.cancel()\<close> at \<open>now + 1\<close>.
  \<open>aborted signal now\<close> is \<^verbatim>\<open>signal.aborted\<close> when the await \<open>now\<close> begins, which is
  what \<^verbatim>\<open>signal?.throwIfAborted()\<close> tests before it. When the signal fires, its
  listener \<^verbatim>\<open>cancelPartialReader\<close> cancels the upstream reader
  (\<open>PartialReader_cancel\<close>, the method \<^verbatim>\<open>cancel\<close> of both variants), after which
  the partial reader delivers what it holds as leftover and then \<^verbatim>\<open>done\<close>:
  \<open>cancelPartialReader signal now\<close> is the effect of the listener on the reader during
  the await \<open>now\<close>, taken at its beginning. A signal that fires in the middle of a
  read, after a part of it was served, or while the consumer holds the body of an
  entry (the pipe of \<^verbatim>\<open>body.stream()\<close> takes the signal too) is not modelled: a
  signal that fires at \<open>now + 3\<close> fires when the body has been consumed.

  \<open>read_entry\<close> is one iteration of the \<^verbatim>\<open>while (true)\<close> loop: it stops, fails,
  yields an entry and goes on (\<open>Yield\<close>), or yields an entry and fails after it
  (\<open>YieldFail\<close>). A yielded entry comes with the body bytes the consumer collected.
  \<open>zip_read_loop\<close> is the loop with what follows it, the \<^verbatim>\<open>await
  partialReader.cancel()\<close> and the last \<^verbatim>\<open>signal?.throwIfAborted()\<close>; \<open>zip_read\<close> is
  \<^verbatim>\<open>read\<close> on a stream: the entries yielded and the error it ends with, if any.
\<close>

definition GZIP_HEADER :: "byte list" where
  "GZIP_HEADER = [31, 139, 8, 0, 0, 0, 0, 0, 0, 0]"

definition decompressDeflateRaw ::
  "(byte list \<Rightarrow> byte list option) \<Rightarrow> byte list \<Rightarrow> nat \<Rightarrow> nat \<Rightarrow> byte list option" where
  "decompressDeflateRaw gunzip bytes crc usize =
     gunzip (GZIP_HEADER @ bytes @
             setUint32 4 usize (setUint32 0 crc (replicate 8 0)))"

datatype ReadEntry =
    ReadFile string "ExtendedTimestamps option" nat nat int
  | ReadDirectory string "ExtendedTimestamps option"

datatype BodyUse = UseStream | UseAutodrain | UseNeither

definition consume_body ::
  "(byte list \<Rightarrow> byte list option) \<Rightarrow> BodyUse \<Rightarrow> nat \<Rightarrow> nat \<Rightarrow> nat \<Rightarrow> nat \<Rightarrow> PartialReader \<Rightarrow>
   error + (byte list option \<times> PartialReader)" where
  "consume_body gunzip use cmethod crc csize usize pr =
     (let handle = \<lparr>bodyMethodFinished = False, compressionMethod = cmethod\<rparr> in
      case use of
        UseNeither \<Rightarrow> Inl BodyNotConsumed
      | UseAutodrain \<Rightarrow>
          (case body_autodrain handle of
             (Inl e, _) \<Rightarrow> Inl e
           | (Inr _, _) \<Rightarrow>
               (case skipAmount csize pr of
                  Inl e \<Rightarrow> Inl e
                | Inr pr' \<Rightarrow> Inr (None, pr')))
      | UseStream \<Rightarrow>
          (case body_stream handle of
             (Inl e, _) \<Rightarrow> Inl e
           | (Inr kind, _) \<Rightarrow>
               (case pull_all 2048 (streamAmount csize) pr of
                  ((outs, Some e), _, _) \<Rightarrow> Inl e
                | ((outs, None), _, pr') \<Rightarrow>
                    (case ExactBytesTransformStream csize outs of
                       (_, Some e) \<Rightarrow> Inl e
                     | (chunks, None) \<Rightarrow>
                         (case kind of
                            StoredBody \<Rightarrow> Inr (Some (concat chunks), pr')
                          | DeflateBody \<Rightarrow>
                              (case decompressDeflateRaw gunzip (concat chunks) crc usize of
                                 None \<Rightarrow> Inl DecompressionError
                               | Some content \<Rightarrow> Inr (Some content, pr')))))))"

datatype Step =
    Stop
  | Fail error
  | Yield "ReadEntry \<times> byte list option" PartialReader
  | YieldFail "ReadEntry \<times> byte list option" error

definition endsWithSlash :: "string \<Rightarrow> bool" where
  "endsWithSlash s = (s \<noteq> [] \<and> last s = CHR ''/'')"

type_synonym AbortSignal = "nat option"

definition aborted :: "AbortSignal option \<Rightarrow> nat \<Rightarrow> bool" where
  "aborted signal now = (case signal of Some (Some t) \<Rightarrow> t < now | _ \<Rightarrow> False)"

definition PartialReader_cancel :: "PartialReader \<Rightarrow> PartialReader" where
  "PartialReader_cancel pr =
     (case pr of
        DefaultPartialReader rd lo \<Rightarrow> DefaultPartialReader [] lo
      | BYOBPartialReader r \<Rightarrow> BYOBPartialReader (r\<lparr>pending := []\<rparr>))"

definition cancelPartialReader :: "AbortSignal option \<Rightarrow> nat \<Rightarrow> PartialReader \<Rightarrow> PartialReader" where
  "cancelPartialReader signal now pr =
     (if signal = Some (Some now) then PartialReader_cancel pr else pr)"

definition read_entry ::
  "(ReadEntry \<Rightarrow> BodyUse) \<Rightarrow> (byte list \<Rightarrow> byte list option) \<Rightarrow> AbortSignal option \<Rightarrow> nat \<Rightarrow>
   PartialReader \<Rightarrow> Step" where
  "read_entry consumer gunzip signal now partialReader =
     (if aborted signal now then Fail AbortError
      else
      case readAmount 30 (cancelPartialReader signal now partialReader) of
        Inl e \<Rightarrow> Fail e
      | Inr (header, pr1) \<Rightarrow>
          if length header = 0 then Stop
          else if length header \<noteq> 30 then Fail UnexpectedEnd
          else
            (let signature = toInt32 (readUint 4 0 header) in
             if signature = 0x02014b50 then Stop
             else if signature \<noteq> 0x04034b50 then Fail BadSignature
             else
               (let version = readUint 2 4 header;
                    flags = readUint 2 6 header;
                    cmethod = readUint 2 8 header;
                    crc = readUint 4 14 header;
                    csize = readUint 4 18 header;
                    usize = readUint 4 22 header;
                    fileNameLength = readUint 2 26 header;
                    extraFieldLength = readUint 2 28 header
                in if version > 45 then Fail UnsupportedVersion
                   else if flags AND 0x1 \<noteq> 0 \<or> flags AND 0x40 \<noteq> 0 then Fail UnsupportedFlag
                   else if flags AND 0x8 \<noteq> 0 then Fail UnsupportedFlag
                   else if flags AND 0x20 \<noteq> 0 then Fail UnsupportedFlag
                   else
                     (case readAmountStrict fileNameLength
                             (cancelPartialReader signal (now + 1) pr1) of
                        Inl e \<Rightarrow> Fail e
                      | Inr (fileNameBytes, pr2) \<Rightarrow>
                     (case readAmountStrict extraFieldLength
                             (cancelPartialReader signal (now + 2) pr2) of
                        Inl e \<Rightarrow> Fail e
                      | Inr (extraFieldRaw, pr3) \<Rightarrow>
                     (case parseExtraField extraFieldRaw of
                        Inl e \<Rightarrow> Fail e
                      | Inr parsedExtraFields \<Rightarrow>
                          (let fileName = TextDecoder_decode fileNameBytes;
                               csize =
                                 (case zip64 parsedExtraFields of
                                    Some z \<Rightarrow> zip64_compressedSize z
                                  | None \<Rightarrow> csize);
                               usize =
                                 (case zip64 parsedExtraFields of
                                    Some z \<Rightarrow> zip64_originalSize z
                                  | None \<Rightarrow> usize)
                           in if aborted signal (now + 3) then Fail AbortError
                              else if \<not> endsWithSlash fileName then
                                (let entry = ReadFile fileName (parsedTimestamps parsedExtraFields)
                                               usize csize (int crc)
                                 in case consume_body gunzip (consumer entry) cmethod crc
                                           csize usize pr3 of
                                      Inl e \<Rightarrow> YieldFail (entry, None) e
                                    | Inr (contents, pr4) \<Rightarrow> Yield (entry, contents) pr4)
                              else
                                (let entry = ReadDirectory fileName (parsedTimestamps parsedExtraFields)
                                 in case consume_body gunzip UseAutodrain cmethod crc
                                           csize usize pr3 of
                                      Inl e \<Rightarrow> Fail e
                                    | Inr (_, pr4) \<Rightarrow> Yield (entry, None) pr4))))))))"


text \<open>Every iteration that goes on has read a 30-byte header, so the loop ends.\<close>

lemma readAmount_Inr:
  "readAmount sz pr = Inr (data, pr') \<Longrightarrow>
     data = take sz (remaining pr) \<and> remaining pr' = drop sz (remaining pr) \<and>
     (reader_inv pr \<longrightarrow> reader_inv pr')"
  using readAmount_spec [of sz pr] by auto

lemma readAmountStrict_Inr:
  "readAmountStrict sz pr = Inr (data, pr') \<Longrightarrow>
     sz \<le> length (remaining pr) \<and> data = take sz (remaining pr) \<and>
     remaining pr' = drop sz (remaining pr) \<and> (reader_inv pr \<longrightarrow> reader_inv pr')"
  using readAmountStrict_spec [of sz pr] by (cases "sz \<le> length (remaining pr)") auto

lemma skipAmount_Inr:
  "skipAmount sz pr = Inr pr' \<Longrightarrow>
     remaining pr' = drop sz (remaining pr) \<and> (reader_inv pr \<longrightarrow> reader_inv pr')"
  using skipAmount_spec [of sz pr] by auto

lemma open_inv_streamAmount: "open_inv (streamAmount sz)"
  by (simp add: open_inv_def streamAmount_def)

lemma pull_all_streamAmount:
  "pull_all 2048 (streamAmount sz) pr = ((outs, r), s, pr') \<Longrightarrow>
     r = None \<and> concat outs = take sz (remaining pr) \<and> remaining pr' = drop sz (remaining pr) \<and>
     consumed s \<and> onConsumed s = Resolved"
  using pull_all_spec [OF open_inv_streamAmount, of 2048 sz pr]
  by (auto simp: streamAmount_def)

lemma consume_body_remaining:
  "consume_body gunzip use cmethod crc csize usize pr = Inr (contents, pr') \<Longrightarrow>
     remaining pr' = drop csize (remaining pr)"
  by (cases use)
     (auto simp: consume_body_def body_autodrain_def body_stream_def Let_def
           split: sum.splits prod.splits if_splits option.splits BodyStream.splits
           dest!: skipAmount_Inr pull_all_streamAmount)

lemma aborted_None [simp]: "aborted None now = False" "aborted (Some None) now = False"
  by (simp_all add: aborted_def)

lemma cancelPartialReader_None [simp]:
  "cancelPartialReader None now pr = pr" "cancelPartialReader (Some None) now pr = pr"
  by (simp_all add: cancelPartialReader_def)

lemma remaining_cancelPartialReader:
  "length (remaining (cancelPartialReader signal now pr)) \<le> length (remaining pr)"
  by (cases pr) (simp_all add: cancelPartialReader_def PartialReader_cancel_def)

lemma isBYOB_cancelPartialReader [simp]:
  "isBYOB (cancelPartialReader signal now pr) = isBYOB pr"
  by (cases pr) (simp_all add: cancelPartialReader_def PartialReader_cancel_def)

lemma read_entry_Yield:
  assumes "read_entry consumer gunzip signal now pr = Yield item pr'"
  shows "\<exists>header pr1 nameBytes pr2 extra pr3 use cmethod crc csize usize contents.
    readAmount 30 (cancelPartialReader signal now pr) = Inr (header, pr1) \<and> length header = 30 \<and>
    readAmountStrict (readUint 2 26 header) (cancelPartialReader signal (now + 1) pr1)
      = Inr (nameBytes, pr2) \<and>
    readAmountStrict (readUint 2 28 header) (cancelPartialReader signal (now + 2) pr2)
      = Inr (extra, pr3) \<and>
    consume_body gunzip use cmethod crc csize usize pr3 = Inr (contents, pr')"
  using assms unfolding read_entry_def Let_def
  by (simp split: sum.splits prod.splits if_splits) blast+

lemma read_entry_Yield_less:
  assumes "read_entry consumer gunzip signal now pr = Yield item pr'"
  shows "length (remaining pr') < length (remaining pr)"
proof -
  from read_entry_Yield [OF assms] obtain header pr1 nameBytes pr2 extra pr3 use cmethod crc csize usize contents
    where a: "readAmount 30 (cancelPartialReader signal now pr) = Inr (header, pr1)"
      and l: "length header = 30"
      and b: "readAmountStrict (readUint 2 26 header) (cancelPartialReader signal (now + 1) pr1)
                = Inr (nameBytes, pr2)"
      and c: "readAmountStrict (readUint 2 28 header) (cancelPartialReader signal (now + 2) pr2)
                = Inr (extra, pr3)"
      and d: "consume_body gunzip use cmethod crc csize usize pr3 = Inr (contents, pr')"
    by blast
  from readAmount_Inr [OF a] l have "30 \<le> length (remaining (cancelPartialReader signal now pr))"
    and "remaining pr1 = drop 30 (remaining (cancelPartialReader signal now pr))" by auto
  with remaining_cancelPartialReader [of signal now pr]
  have "length (remaining pr1) < length (remaining pr)" by simp
  moreover from readAmountStrict_Inr [OF b] remaining_cancelPartialReader [of signal "now + 1" pr1]
  have "length (remaining pr2) \<le> length (remaining pr1)" by simp
  moreover from readAmountStrict_Inr [OF c] remaining_cancelPartialReader [of signal "now + 2" pr2]
  have "length (remaining pr3) \<le> length (remaining pr2)" by simp
  moreover from consume_body_remaining [OF d] have "length (remaining pr') \<le> length (remaining pr3)" by simp
  ultimately show ?thesis by simp
qed

function zip_read_loop ::
  "(ReadEntry \<Rightarrow> BodyUse) \<Rightarrow> (byte list \<Rightarrow> byte list option) \<Rightarrow> AbortSignal option \<Rightarrow> nat \<Rightarrow>
   PartialReader \<Rightarrow> (ReadEntry \<times> byte list option) list \<times> error option" where
  "zip_read_loop consumer gunzip signal now pr =
     (case read_entry consumer gunzip signal now pr of
        Stop \<Rightarrow> ([], if aborted signal (now + 2) then Some AbortError else None)
      | Fail e \<Rightarrow> ([], Some e)
      | YieldFail item e \<Rightarrow> ([item], Some e)
      | Yield item pr' \<Rightarrow>
          (case zip_read_loop consumer gunzip signal (now + 4) pr' of
             (items, r) \<Rightarrow> (item # items, r)))"
  by pat_completeness auto
termination
  by (relation "measure (\<lambda>(consumer, gunzip, signal, now, pr). length (remaining pr))")
     (auto dest: read_entry_Yield_less)

declare zip_read_loop.simps [simp del]

definition zip_read ::
  "(ReadEntry \<Rightarrow> BodyUse) \<Rightarrow> (byte list \<Rightarrow> byte list option) \<Rightarrow> AbortSignal option \<Rightarrow>
   ReadableStream \<Rightarrow> (ReadEntry \<times> byte list option) list \<times> error option" where
  "zip_read consumer gunzip signal src = zip_read_loop consumer gunzip signal 1 (fromStream src)"


lemma zip_read_loop_Stop:
  "read_entry consumer gunzip signal now pr = Stop \<Longrightarrow>
   zip_read_loop consumer gunzip signal now pr =
     ([], if aborted signal (now + 2) then Some AbortError else None)"
  by (subst zip_read_loop.simps) simp

lemma zip_read_loop_Fail:
  "read_entry consumer gunzip signal now pr = Fail e \<Longrightarrow>
   zip_read_loop consumer gunzip signal now pr = ([], Some e)"
  by (subst zip_read_loop.simps) simp

lemma zip_read_loop_Yield:
  "read_entry consumer gunzip signal now pr = Yield item pr' \<Longrightarrow>
   zip_read_loop consumer gunzip signal now pr =
     (item # fst (zip_read_loop consumer gunzip signal (now + 4) pr'),
      snd (zip_read_loop consumer gunzip signal (now + 4) pr'))"
  by (subst zip_read_loop.simps) (simp split: prod.splits)

subsection \<open>Claims about the parse loop and the body handle\<close>

text \<open>
  C6, as amended. An iteration of the parse loop that begins when the signal has
  fired fails with the abort reason and requests no header. Otherwise it requests 30
  bytes, and whatever the state of the reader: if the request returns zero bytes,
  \<^verbatim>\<open>read\<close> yields no further entry and ends, cleanly unless the signal has fired
  by the last test, and with the abort reason if it has; if it returns more than zero
  and fewer than 30 bytes, \<^verbatim>\<open>read\<close> fails with UnexpectedEnd; if the little-endian
  32-bit signature at offset 0 is \<open>0x02014b50\<close>, the loop ends and \<^verbatim>\<open>read\<close> ends as
  for zero bytes; if it is neither \<open>0x04034b50\<close> nor \<open>0x02014b50\<close>, \<^verbatim>\<open>read\<close> fails
  with BadSignature. The request returns the next (at most 30) bytes of the source
  when the reader is of the default variant or the source has 30 bytes left.
\<close>

theorem C6_parse_loop_header:
  "(aborted signal now \<longrightarrow>
      zip_read_loop consumer gunzip signal now pr = ([], Some AbortError)) \<and>
   (\<not> aborted signal now \<longrightarrow>
      (\<forall>header pr1. readAmount 30 (cancelPartialReader signal now pr) = Inr (header, pr1) \<longrightarrow>
         (length header = 0 \<longrightarrow>
            zip_read_loop consumer gunzip signal now pr =
              ([], if aborted signal (now + 2) then Some AbortError else None)) \<and>
         (0 < length header \<and> length header < 30 \<longrightarrow>
            zip_read_loop consumer gunzip signal now pr = ([], Some UnexpectedEnd)) \<and>
         (length header = 30 \<and> getInt32 0 header = Inr 0x02014b50 \<longrightarrow>
            zip_read_loop consumer gunzip signal now pr =
              ([], if aborted signal (now + 2) then Some AbortError else None)) \<and>
         (length header = 30 \<and> getInt32 0 header \<noteq> Inr 0x04034b50 \<and>
          getInt32 0 header \<noteq> Inr 0x02014b50 \<longrightarrow>
            zip_read_loop consumer gunzip signal now pr = ([], Some BadSignature)))) \<and>
   (\<not> isBYOB pr \<or> 30 \<le> length (remaining (cancelPartialReader signal now pr)) \<longrightarrow>
      (\<exists>pr1. readAmount 30 (cancelPartialReader signal now pr) =
               Inr (take 30 (remaining (cancelPartialReader signal now pr)), pr1)))"
proof -
  let ?pr = "cancelPartialReader signal now pr"
  let ?end = "([], if aborted signal (now + 2) then Some AbortError else None)"
  have "zip_read_loop consumer gunzip signal now pr = ([], Some AbortError)" if "aborted signal now"
    using that by (intro zip_read_loop_Fail) (simp add: read_entry_def)
  moreover have "zip_read_loop consumer gunzip signal now pr = ?end"
    if "\<not> aborted signal now" "readAmount 30 ?pr = Inr (header, pr1)" "length header = 0"
    for header pr1
    using that by (intro zip_read_loop_Stop) (simp add: read_entry_def)
  moreover have "zip_read_loop consumer gunzip signal now pr = ([], Some UnexpectedEnd)"
    if "\<not> aborted signal now" "readAmount 30 ?pr = Inr (header, pr1)"
      "0 < length header" "length header < 30" for header pr1
    using that by (intro zip_read_loop_Fail) (simp add: read_entry_def)
  moreover have "zip_read_loop consumer gunzip signal now pr = ?end"
    if "\<not> aborted signal now" "readAmount 30 ?pr = Inr (header, pr1)" "length header = 30"
      "getInt32 0 header = Inr 0x02014b50"
    for header pr1
    using that by (intro zip_read_loop_Stop) (auto simp: read_entry_def getInt32_def getUint_def)
  moreover have "zip_read_loop consumer gunzip signal now pr = ([], Some BadSignature)"
    if "\<not> aborted signal now" "readAmount 30 ?pr = Inr (header, pr1)" "length header = 30"
      "getInt32 0 header \<noteq> Inr 0x04034b50" "getInt32 0 header \<noteq> Inr 0x02014b50"
    for header pr1
    using that by (intro zip_read_loop_Fail) (auto simp: read_entry_def getInt32_def getUint_def)
  moreover have "\<exists>pr1. readAmount 30 ?pr = Inr (take 30 (remaining ?pr), pr1)"
    if "\<not> isBYOB pr \<or> 30 \<le> length (remaining ?pr)"
    using that readAmount_spec [of 30 ?pr] by auto
  ultimately show ?thesis by blast
qed

theorem C6_parse_loop_header_witness:
  "zip_read (\<lambda>_. UseStream) (\<lambda>_. None) None (DefaultStream []) = ([], None) \<and>
   zip_read (\<lambda>_. UseStream) (\<lambda>_. None) None (DefaultStream [[80, 75, 3]]) = ([], Some UnexpectedEnd) \<and>
   zip_read (\<lambda>_. UseStream) (\<lambda>_. None) None
     (DefaultStream [[80, 75, 1, 2, 45, 0, 45, 0, 0, 0, 0, 0, 0, 0, 0, 0, 0, 0, 0, 0,
                      255, 255, 255, 255, 255, 255, 255, 255, 1, 0, 28, 0]]) = ([], None) \<and>
   zip_read (\<lambda>_. UseStream) (\<lambda>_. None) None
     (DefaultStream [[80, 75, 6, 6, 44, 0, 0, 0, 0, 0, 0, 0, 45, 0, 45, 0, 0, 0, 0, 0,
                      0, 0, 0, 0, 0, 0, 0, 0, 0, 0, 0, 0]]) = ([], Some BadSignature) \<and>
   zip_read (\<lambda>_. UseStream) (\<lambda>_. None) (Some (Some 0)) (DefaultStream []) = ([], Some AbortError)"
proof -
  let ?c = "\<lambda>_::ReadEntry. UseStream" and ?g = "\<lambda>_::byte list. None::byte list option"
  let ?cd = "[80, 75, 1, 2, 45, 0, 45, 0, 0, 0, 0, 0, 0, 0, 0, 0, 0, 0, 0, 0,
                      255, 255, 255, 255, 255, 255, 255, 255, 1, 0, 28, 0] :: byte list"
  let ?end = "[80, 75, 6, 6, 44, 0, 0, 0, 0, 0, 0, 0, 45, 0, 45, 0, 0, 0, 0, 0,
                      0, 0, 0, 0, 0, 0, 0, 0, 0, 0, 0, 0] :: byte list"
  have r1: "readAmount 30 (fromStream (DefaultStream [])) = Inr ([], DefaultPartialReader [] None)"
    by (simp add: base_readAmount_def)
  have r2: "readAmount 30 (fromStream (DefaultStream [[80, 75, 3]]))
      = Inr ([80, 75, 3], DefaultPartialReader [] None)"
    by (simp add: base_readAmount_def limit_value_def base_readAmount_loop.simps setBytes_def)
  have r3: "readAmount 30 (fromStream (DefaultStream [?cd]))
      = Inr (take 30 ?cd, DefaultPartialReader [] (Some (drop 30 ?cd)))"
    by (simp add: base_readAmount_def limit_value_def)
  have r4: "readAmount 30 (fromStream (DefaultStream [?end]))
      = Inr (take 30 ?end, DefaultPartialReader [] (Some (drop 30 ?end)))"
    by (simp add: base_readAmount_def limit_value_def)
  have s3: "getInt32 0 (take 30 ?cd) = Inr 0x02014b50"
    by (simp add: getInt32_def getUint_def readUint_def toInt32_def)
  have s4: "getInt32 0 (take 30 ?end) = Inr 0x06064b50"
    by (simp add: getInt32_def getUint_def readUint_def toInt32_def)
  from C6_parse_loop_header [where signal = None and now = 1 and consumer = ?c and gunzip = ?g
      and pr = "fromStream (DefaultStream [])"] r1
  have "zip_read ?c ?g None (DefaultStream []) = ([], None)"
    unfolding zip_read_def by fastforce
  moreover from C6_parse_loop_header [where signal = None and now = 1 and consumer = ?c
      and gunzip = ?g and pr = "fromStream (DefaultStream [[80, 75, 3]])"] r2
  have "zip_read ?c ?g None (DefaultStream [[80, 75, 3]]) = ([], Some UnexpectedEnd)"
    unfolding zip_read_def by fastforce
  moreover from C6_parse_loop_header [where signal = None and now = 1 and consumer = ?c
      and gunzip = ?g and pr = "fromStream (DefaultStream [?cd])"] r3 s3
  have "zip_read ?c ?g None (DefaultStream [?cd]) = ([], None)"
    unfolding zip_read_def by fastforce
  moreover from C6_parse_loop_header [where signal = None and now = 1 and consumer = ?c
      and gunzip = ?g and pr = "fromStream (DefaultStream [?end])"] r4 s4
  have "zip_read ?c ?g None (DefaultStream [?end]) = ([], Some BadSignature)"
    unfolding zip_read_def by fastforce
  moreover from C6_parse_loop_header [where signal = "Some (Some 0)" and now = 1 and consumer = ?c
      and gunzip = ?g and pr = "fromStream (DefaultStream [])"]
  have "zip_read ?c ?g (Some (Some 0)) (DefaultStream []) = ([], Some AbortError)"
    unfolding zip_read_def by (simp add: aborted_def)
  ultimately show ?thesis by blast
qed

text \<open>
  C6 as stated fails when the abort signal fires during the header request: the
  listener cancels the reader, the request returns zero bytes and the loop ends, but
  \<^verbatim>\<open>read\<close> does not end cleanly: the \<^verbatim>\<open>signal?.throwIfAborted()\<close> that follows the
  loop throws the abort reason, so that a read cut short by an abort is not taken for
  the end of the archive.
\<close>

theorem C6_parse_loop_header_counterexample:
  "readAmount 30 (cancelPartialReader (Some (Some 1)) 1 (fromStream (DefaultStream [[80, 75, 3, 4]])))
     = Inr ([], DefaultPartialReader [] None) \<and>
   zip_read (\<lambda>_. UseStream) (\<lambda>_. None) (Some (Some 1)) (DefaultStream [[80, 75, 3, 4]])
     = ([], Some AbortError)"
  by (simp add: zip_read_def zip_read_loop.simps read_entry_def aborted_def cancelPartialReader_def
      PartialReader_cancel_def base_readAmount_def)

text \<open>
  C7. On every body handle, for every sequence of calls of \<^verbatim>\<open>stream()\<close> and
  \<^verbatim>\<open>autodrain()\<close>: every call after the first fails with BodyAlreadyUsed, so at most
  one call succeeds.
\<close>

theorem C7_body_handle:
  "(\<exists>r. body_calls (c # cs) h = r # replicate (length cs) (Some BodyAlreadyUsed)) \<and>
   length (filter (\<lambda>r. r = None) (body_calls calls h)) \<le> 1"
proof -
  have used: "body_calls cs h = replicate (length cs) (Some BodyAlreadyUsed)"
    if "bodyMethodFinished h" for cs h
    using that
  proof (induction cs arbitrary: h)
    case Nil
    then show ?case by simp
  next
    case (Cons c cs)
    then show ?case
      by (cases c) (simp_all add: body_stream_def body_autodrain_def)
  qed
  have after: "bodyMethodFinished (snd (body_call c h))" for c h
    by (cases c) (simp_all add: body_stream_def body_autodrain_def Let_def split: prod.splits)
  have first: "body_calls (c # cs) h = fst (body_call c h) # replicate (length cs) (Some BodyAlreadyUsed)"
    for c cs h
    using used [OF after [of c h], of cs] by (auto split: prod.splits)
  have "length (filter (\<lambda>r. r = None) (body_calls calls h)) \<le> 1"
  proof (cases calls)
    case Nil
    then show ?thesis by simp
  next
    case (Cons c cs)
    then show ?thesis by (simp del: body_calls.simps add: first)
  qed
  with first [of c cs h] show ?thesis by blast
qed


theorem C7_body_handle_witness:
  "body_calls [CallStream, CallAutodrain, CallStream]
      \<lparr>bodyMethodFinished = False, compressionMethod = 8\<rparr>
     = [None, Some BodyAlreadyUsed, Some BodyAlreadyUsed] \<and>
   body_calls [CallAutodrain, CallStream] \<lparr>bodyMethodFinished = False, compressionMethod = 0\<rparr>
     = [None, Some BodyAlreadyUsed] \<and>
   body_calls [CallStream, CallAutodrain] \<lparr>bodyMethodFinished = False, compressionMethod = 12\<rparr>
     = [Some UnknownCompressionMethod, Some BodyAlreadyUsed]"
  using C7_body_handle [of CallStream "[CallAutodrain, CallStream]"
      "\<lparr>bodyMethodFinished = False, compressionMethod = 8\<rparr>" "[]"]
  by (simp add: body_stream_def body_autodrain_def)

section \<open>Writing and reading back\<close>

text \<open>
  What \<^verbatim>\<open>read\<close> makes of the bytes that \<^verbatim>\<open>write\<close> produced. The reader
  never sees a write entry, only the local file header, the name and the extra field,
  so what it yields is a function of those. \<open>readBackName\<close> is a name after the writer
  has encoded it and the reader has decoded it. \<open>readBackTime\<close> is a time after the
  writer has stored it as seconds in 32 bits and the reader has read these as a signed
  integer and multiplied by 1000; \<open>readBackTimes\<close> does so on the three times.
\<close>

definition readBackName :: "string \<Rightarrow> string" where
  "readBackName nm = TextDecoder_decode (TextEncoder_encode nm)"

definition readBackTime :: "int \<Rightarrow> int" where
  "readBackTime ms = toInt32 (ToUint32 (seconds ms)) * 1000"

definition readBackTimes :: "ExtendedTimestamps \<Rightarrow> ExtendedTimestamps" where
  "readBackTimes ts =
     \<lparr>modifyTime = map_option readBackTime (modifyTime ts),
      accessTime = map_option readBackTime (accessTime ts),
      createTime = map_option readBackTime (createTime ts)\<rparr>"

text \<open>
  \<open>entryBody\<close> is the bytes of the body stream of a write entry (none for a
  directory), \<open>entryContents\<close> what the stream returned by \<^verbatim>\<open>body.stream()\<close> delivers
  for them: the bytes themselves for a stored body, their decompression, with the CRC
  and the size of the header in the gzip trailer, for a deflate body.
  \<open>readBack\<close> is the entry the reader yields, with the contents of the body where it
  has one. The reader decides between file and directory by the name alone
  (\<^verbatim>\<open>fileName.endsWith\<close> of a slash), and takes the sizes from the ZIP64 record, which holds
  them modulo \<open>2^64\<close>, as the numbers nearest to them. \<open>readable\<close> is what the read of
  one written entry needs in order to succeed: that the length of the body is the
  length the reader takes from the ZIP64 record, and, for a file, that the body
  decompresses.
\<close>

definition entryBody :: "WriteEntry \<Rightarrow> byte list" where
  "entryBody entry = (case entry of WriteFile _ _ b \<Rightarrow> concat (stream b) | WriteDirectory _ _ \<Rightarrow> [])"

definition entryContents :: "(byte list \<Rightarrow> byte list option) \<Rightarrow> WriteEntry \<Rightarrow> byte list option" where
  "entryContents gunzip entry =
     (if isDeflate entry
      then decompressDeflateRaw gunzip (entryBody entry) (crcField entry)
             (Number (entryOriginalSize entry mod 2 ^ 64))
      else Some (entryBody entry))"

definition readBack :: "(byte list \<Rightarrow> byte list option) \<Rightarrow> WriteEntry \<Rightarrow> ReadEntry \<times> byte list option" where
  "readBack gunzip entry =
     (if endsWithSlash (readBackName (name entry))
      then (ReadDirectory (readBackName (name entry))
              (map_option readBackTimes (extendedTimestamps entry)), None)
      else (ReadFile (readBackName (name entry))
              (map_option readBackTimes (extendedTimestamps entry))
              (Number (entryOriginalSize entry mod 2 ^ 64))
              (Number (entryCompressedSize entry mod 2 ^ 64))
              (int (crcField entry)),
            entryContents gunzip entry))"

definition readable :: "(byte list \<Rightarrow> byte list option) \<Rightarrow> WriteEntry \<Rightarrow> bool" where
  "readable gunzip entry =
     (Number (entryCompressedSize entry mod 2 ^ 64) = entryCompressedSize entry \<and>
      (\<not> endsWithSlash (readBackName (name entry)) \<longrightarrow> entryContents gunzip entry \<noteq> None))"

text \<open>
  \<open>accepted\<close>: the two checks of the writer on an entry, the length of the encoded
  name and the length of the body stream against the declared one. \<open>unaborted\<close>: no
  abort signal was given to \<^verbatim>\<open>read\<close>, or one that never fires.
\<close>

definition accepted :: "WriteEntry \<Rightarrow> bool" where
  "accepted entry =
     (length (TextEncoder_encode (name entry)) < 2 ^ 16 \<and>
      (case entry of
         WriteFile _ _ b \<Rightarrow> total (stream b) = bodyLength b
       | WriteDirectory _ _ \<Rightarrow> True))"

definition unaborted :: "AbortSignal option \<Rightarrow> bool" where
  "unaborted signal = (signal = None \<or> signal = Some None)"

text \<open>
  A well-formed write entry, together with the original content of its body, which is a
  datum of its own: a write entry with a deflate body holds the compressed bytes only.
  The name of a directory ends in a slash and the name of a file does not, and neither
  begins with a byte order mark (\<open>wf_name\<close>); a time is a whole number of seconds that
  fits 32 signed bits; the sizes are numbers that JavaScript holds exactly; the CRC is
  an unsigned 32-bit number. The stream of a stored body delivers the content. A
  deflate body declares the length of the content as its original size and its CRC-32
  as its CRC, and its stream delivers a raw deflate stream of the content: bytes that,
  framed as a gzip member with the CRC-32 and the length of the content, the platform's
  decompressor turns into the content. \<open>gzip_member\<close> is the member of RFC 1952 with no
  optional field: the magic bytes, the method 8, no flags, no time, no extra flags,
  operating system 0, then the deflate stream, the CRC-32 and the length modulo
  \<open>2^32\<close>, both little-endian. The function \<open>crc32\<close> is a parameter.

  \<open>expected\<close> is the entry that the round trip is to yield: the values of the write
  entry, and the original content as the content of the body.
\<close>

definition wf_name :: "string \<Rightarrow> bool" where
  "wf_name nm = (take 3 (TextEncoder_encode nm) \<noteq> [0xEF, 0xBB, 0xBF])"

definition wf_time :: "int option \<Rightarrow> bool" where
  "wf_time t =
     (case t of
        None \<Rightarrow> True
      | Some ms \<Rightarrow> ms mod 1000 = 0 \<and> - (2 ^ 31) \<le> ms div 1000 \<and> ms div 1000 < 2 ^ 31)"

definition wf_timestamps :: "ExtendedTimestamps option \<Rightarrow> bool" where
  "wf_timestamps ts =
     (case ts of
        None \<Rightarrow> True
      | Some t \<Rightarrow> wf_time (modifyTime t) \<and> wf_time (accessTime t) \<and> wf_time (createTime t))"

definition gzip_member :: "byte list \<Rightarrow> nat \<Rightarrow> nat \<Rightarrow> byte list" where
  "gzip_member deflated crc isize =
     [0x1f, 0x8b, 8, 0, 0, 0, 0, 0, 0, 0] @ deflated @ le_bytes 4 crc @ le_bytes 4 isize"

definition wf_entry ::
  "(byte list \<Rightarrow> byte list option) \<Rightarrow> (byte list \<Rightarrow> nat) \<Rightarrow> WriteEntry \<Rightarrow> byte list \<Rightarrow> bool" where
  "wf_entry gunzip crc32 entry content =
     (case entry of
        WriteDirectory nm ts \<Rightarrow> endsWithSlash nm \<and> wf_name nm \<and> wf_timestamps ts
      | WriteFile nm ts b \<Rightarrow>
          \<not> endsWithSlash nm \<and> wf_name nm \<and> wf_timestamps ts \<and>
          originalSize b < 2 ^ 53 \<and> bodyLength b < 2 ^ 53 \<and>
          0 \<le> originalCrc b \<and> originalCrc b < 2 ^ 32 \<and>
          (case b of
             Uncompressed _ _ src \<Rightarrow> concat src = content
           | Deflate usize _ crc src \<Rightarrow>
               usize = length content \<and> crc = int (crc32 content) \<and>
               gunzip (gzip_member (concat src) (crc32 content) (length content)) = Some content))"

definition expected :: "WriteEntry \<Rightarrow> byte list \<Rightarrow> ReadEntry \<times> byte list option" where
  "expected entry content =
     (case entry of
        WriteDirectory nm ts \<Rightarrow> (ReadDirectory nm ts, None)
      | WriteFile nm ts b \<Rightarrow>
          (ReadFile nm ts (originalSize b) (bodyLength b) (originalCrc b), Some content))"

subsection \<open>The extra field and the header, read back\<close>

lemma Number_exact [simp]: "v < 2 ^ 53 \<Longrightarrow> Number v = v"
  by (simp add: Number_def)

lemma readUint_append1:
  "off + k \<le> length a \<Longrightarrow> readUint k off (a @ b) = readUint k off a"
  by (simp add: readUint_def)

lemma readUint_append2:
  "length a \<le> off \<Longrightarrow> readUint k off (a @ b) = readUint k (off - length a) b"
  by (simp add: readUint_def)

lemma readUint_le_bytes: "readUint k 0 (le_bytes k v) = v mod 256 ^ k"
  by (simp add: readUint_def le_val_le_bytes)

lemmas readUint_blocks = readUint_append1 readUint_append2 readUint_le_bytes

lemma getInt32_le_bytes:
  "getInt32 0 (le_bytes 4 (ToUint32 s) @ rest) = Inr (toInt32 (ToUint32 s))"
  using ToUint32_less [of s]
  by (simp add: getInt32_def getUint_blocks)

lemma parse_zip64_step:
  "parseExtraField_loop (le_bytes 2 1 @ le_bytes 2 16 @ le_bytes 8 osz @ le_bytes 8 csz @ t) 0 r =
   parseExtraField_loop (le_bytes 2 1 @ le_bytes 2 16 @ le_bytes 8 osz @ le_bytes 8 csz @ t) 20
     (r\<lparr>zip64 := Some \<lparr>zip64_originalSize = Number (osz mod 2 ^ 64),
                     zip64_compressedSize = Number (csz mod 2 ^ 64)\<rparr>\<rparr>)"
  by (subst parseExtraField_loop.simps)
     (simp add: readUint_blocks parsePart_def parseZip64_def getBigUint64_def getUint_blocks)

lemma parse_end_step:
  "length z = pos \<Longrightarrow> parseExtraField_loop z pos r = Inr r"
  by (subst parseExtraField_loop.simps) simp

lemma getUint_Cons0: "getUint (Suc 0) 0 (b # bs) = Inr (unat b)"
  by (simp add: getUint_def readUint_def)

lemma getUint_Cons: "0 < off \<Longrightarrow> getUint k off (b # bs) = getUint k (off - 1) bs"
  by (cases off) (simp_all add: getUint_def readUint_def)

lemma ToUint32_mod: "ToUint32 v mod 4294967296 = ToUint32 v"
  using ToUint32_less [of v] by simp

lemma parseTimestamps_record:
  "parseTimestamps (drop 4 (timesRecord (Some ts))) = Inr (readBackTimes ts)"
  by (cases "modifyTime ts"; cases "accessTime ts"; cases "createTime ts")
     (simp_all add: timesRecord_def parseTimestamps_def readTime_def readBackTimes_def readBackTime_def
        getUint8_def getUint_blocks getUint_Cons0 getInt32_def getUint_Cons ToUint32_mod Let_def)

lemma timesRecord_Some_shape:
  "\<exists>k payload. timesRecord (Some ts) = le_bytes 2 0x5455 @ le_bytes 2 k @ payload \<and>
      length payload = k \<and> k \<le> 13 \<and> payload = drop 4 (timesRecord (Some ts))"
  by (cases "modifyTime ts"; cases "accessTime ts"; cases "createTime ts")
     (simp_all add: timesRecord_def Let_def)

lemma parse_times_step:
  assumes "length z = 20"
  shows "parseExtraField_loop (z @ timesRecord (Some ts)) 20 r =
         Inr (r\<lparr>parsedTimestamps := Some (readBackTimes ts)\<rparr>)"
proof -
  from timesRecord_Some_shape [of ts] obtain k payload where
    t: "timesRecord (Some ts) = le_bytes 2 0x5455 @ le_bytes 2 k @ payload"
    and l: "length payload = k" and k: "k \<le> 13" and p: "payload = drop 4 (timesRecord (Some ts))"
    by blast
  have km: "k mod 65536 = k" using k by simp
  have "parseExtraField_loop (z @ le_bytes 2 0x5455 @ le_bytes 2 k @ payload) 20 r =
        parseExtraField_loop (z @ le_bytes 2 0x5455 @ le_bytes 2 k @ payload) (24 + k)
          (r\<lparr>parsedTimestamps := Some (readBackTimes ts)\<rparr>)"
    using assms l km parseTimestamps_record [of ts] p
    by (subst parseExtraField_loop.simps)
       (simp add: readUint_blocks parsePart_def)
  also have "\<dots> = Inr (r\<lparr>parsedTimestamps := Some (readBackTimes ts)\<rparr>)"
    using assms l by (intro parse_end_step) simp
  finally show ?thesis using t by simp
qed

text \<open>
  The extra field of a local header parses to the two sizes the writer stored and to
  the times, read back.
\<close>

lemma parseExtraField_localExtraField:
  "parseExtraField (localExtraField entry) =
     Inr \<lparr>zip64 = Some \<lparr>zip64_originalSize = Number (entryOriginalSize entry mod 2 ^ 64),
                         zip64_compressedSize = Number (entryCompressedSize entry mod 2 ^ 64)\<rparr>,
          parsedTimestamps = map_option readBackTimes (extendedTimestamps entry)\<rparr>"
proof (cases "extendedTimestamps entry")
  case None
  let ?z = "le_bytes 2 1 @ le_bytes 2 16 @ le_bytes 8 (entryOriginalSize entry) @
            le_bytes 8 (entryCompressedSize entry) @ []"
  let ?r = "\<lparr>zip64 = Some \<lparr>zip64_originalSize = Number (entryOriginalSize entry mod 2 ^ 64),
                         zip64_compressedSize = Number (entryCompressedSize entry mod 2 ^ 64)\<rparr>,
            parsedTimestamps = None\<rparr>"
  have "parseExtraField_loop ?z 0 \<lparr>zip64 = None, parsedTimestamps = None\<rparr> =
        parseExtraField_loop ?z 20 ?r"
    using parse_zip64_step [of "entryOriginalSize entry" "entryCompressedSize entry" "[]"
        "\<lparr>zip64 = None, parsedTimestamps = None\<rparr>"] by simp
  also have "\<dots> = Inr ?r"
    by (rule parse_end_step) simp
  finally show ?thesis
    using None by (simp add: parseExtraField_def localExtraField_def timesRecord_def)
next
  case (Some ts)
  let ?z = "le_bytes 2 1 @ le_bytes 2 16 @ le_bytes 8 (entryOriginalSize entry) @
            le_bytes 8 (entryCompressedSize entry) @ timesRecord (Some ts)"
  let ?r = "\<lparr>zip64 = Some \<lparr>zip64_originalSize = Number (entryOriginalSize entry mod 2 ^ 64),
                         zip64_compressedSize = Number (entryCompressedSize entry mod 2 ^ 64)\<rparr>,
            parsedTimestamps = None\<rparr>"
  have "parseExtraField_loop ?z 0 \<lparr>zip64 = None, parsedTimestamps = None\<rparr> =
        parseExtraField_loop ?z 20 ?r"
    using parse_zip64_step [of "entryOriginalSize entry" "entryCompressedSize entry"
        "timesRecord (Some ts)" "\<lparr>zip64 = None, parsedTimestamps = None\<rparr>"] by simp
  also have "\<dots> = Inr (?r\<lparr>parsedTimestamps := Some (readBackTimes ts)\<rparr>)"
    using parse_times_step [of "le_bytes 2 1 @ le_bytes 2 16 @ le_bytes 8 (entryOriginalSize entry) @
            le_bytes 8 (entryCompressedSize entry)" ts ?r] by simp
  finally show ?thesis
    using Some by (simp add: parseExtraField_def localExtraField_def)
qed

text \<open>
  A name read back is the name, less a leading byte order mark; whether it ends in a
  slash is not changed by that.
\<close>

lemma char_of_byte: "char_of (unat (word_of_nat (of_char c) :: byte)) = c"
proof -
  have "unat (word_of_nat (of_char c) :: byte) = of_char c mod 256"
    by (simp add: unat_of_nat)
  then have "unat (word_of_nat (of_char c) :: byte) = of_char c"
    by (simp only: of_char_mod_256)
  then show ?thesis by simp
qed

lemma readBackName_eq:
  "readBackName s = (if take 3 (TextEncoder_encode s) = [0xEF, 0xBB, 0xBF] then drop 3 s else s)"
  by (simp add: readBackName_def TextDecoder_decode_def TextEncoder_encode_def drop_map comp_def
        char_of_byte)

lemma readBackName_wf: "wf_name nm \<Longrightarrow> readBackName nm = nm"
  by (simp add: readBackName_eq wf_name_def)

lemma slash_byte: "(word_of_nat (of_char c) :: byte) = 0xBF \<Longrightarrow> c \<noteq> CHR ''/''"
  by auto

lemma endsWithSlash_readBackName: "endsWithSlash (readBackName nm) = endsWithSlash nm"
proof (cases "take 3 (TextEncoder_encode nm) = [0xEF, 0xBB, 0xBF]")
  case False
  then show ?thesis by (simp add: readBackName_eq)
next
  case True
  then obtain a b c rest where nm: "nm = a # b # c # rest"
    and c: "(word_of_nat (of_char c) :: byte) = 0xBF"
    by (cases nm; cases "tl nm"; cases "tl (tl nm)") (auto simp: TextEncoder_encode_def)
  from True nm have "readBackName nm = rest" by (simp add: readBackName_eq)
  with nm slash_byte [OF c] show ?thesis by (cases rest) (simp_all add: endsWithSlash_def)
qed

lemma header_readUint:
  "readUint 4 0 (localFileHeaderStart entry n ef) = 0x04034b50"
  "readUint 2 4 (localFileHeaderStart entry n ef) = 45"
  "readUint 2 6 (localFileHeaderStart entry n ef) = 0"
  "readUint 2 8 (localFileHeaderStart entry n ef) = (if isDeflate entry then 8 else 0)"
  "readUint 4 14 (localFileHeaderStart entry n ef) = crcField entry"
  "readUint 2 26 (localFileHeaderStart entry n ef) = n mod 2 ^ 16"
  "readUint 2 28 (localFileHeaderStart entry n ef) = (case ef of None \<Rightarrow> 0 | Some x \<Rightarrow> length x) mod 2 ^ 16"
  using crcField_less [of entry]
  by (simp_all add: localFileHeaderStart_closed readUint_blocks)

lemma directory_extra_field:
  "getUint16 0 (localExtraField (WriteDirectory nm ts)) = Inr 0x0001"
  "getUint16 2 (localExtraField (WriteDirectory nm ts)) = Inr 16"
  "getBigUint64 4 (localExtraField (WriteDirectory nm ts)) = Inr 0"
  "getBigUint64 12 (localExtraField (WriteDirectory nm ts)) = Inr 0"
  by (simp_all add: localExtraField_def entryOriginalSize_def entryCompressedSize_def
        getUint16_def getBigUint64_def getUint_blocks)

subsection \<open>One entry\<close>

text \<open>
  An entry the writer accepted is the header, the name, the extra field and the body,
  and the body has the declared length.
\<close>

lemma writeLocalFileEntry_accepted:
  assumes "writeLocalFileEntry entry lfhOffset = (chunks, Inr res)"
  shows "length (TextEncoder_encode (name entry)) < 2 ^ 16 \<and>
         concat chunks =
           localFileHeaderStart entry (length (TextEncoder_encode (name entry))) (Some (localExtraField entry)) @
           TextEncoder_encode (name entry) @ localExtraField entry @ entryBody entry \<and>
         length (entryBody entry) = entryCompressedSize entry \<and>
         bytesWritten res = length (concat chunks) \<and>
         cdFileHeaders res = centralDirectoryFileHeaders entry (TextEncoder_encode (name entry)) lfhOffset"
proof (cases entry)
  case (WriteDirectory nm ts)
  with assms show ?thesis
    by (auto simp: writeLocalFileEntry_def createExtraField_None Let_def header_fields(1)
          entryBody_def entryCompressedSize_def split: if_splits)
next
  case (WriteFile nm ts b)
  obtain out r where e: "ExactBytesTransformStream (bodyLength b) (stream b) = (out, r)"
    by (cases "ExactBytesTransformStream (bodyLength b) (stream b)")
  with assms WriteFile have r: "r = None"
    by (auto simp: writeLocalFileEntry_def createExtraField_None Let_def split: if_splits option.splits)
  from e r have "snd (ExactBytes_run (bodyLength b) 0 (stream b)) = None"
    by (simp add: ExactBytesTransformStream_def)
  then have t: "total (stream b) = bodyLength b"
    by (simp add: ExactBytes_run_ok_iff)
  then have o: "out = stream b"
    using e ExactBytes_run_exact [of 0 "stream b" "bodyLength b"]
    by (simp add: ExactBytesTransformStream_def)
  from assms WriteFile e r o t show ?thesis
    by (auto simp: writeLocalFileEntry_def createExtraField_None Let_def header_fields(1) total_def
          entryBody_def entryCompressedSize_def split: if_splits)
qed

lemma writeLocalFileEntry_accepts:
  "accepted entry \<Longrightarrow> \<exists>chunks res. writeLocalFileEntry entry lfhOffset = (chunks, Inr res)"
  by (cases entry)
     (auto simp: accepted_def writeLocalFileEntry_def Let_def ExactBytesTransformStream_def
        ExactBytes_run_exact)

lemma consume_autodrain:
  assumes "remaining pr = bytes @ rest" and "length bytes = csize"
  shows "\<exists>pr'. consume_body gunzip UseAutodrain cmethod crc csize usize pr = Inr (None, pr') \<and>
         remaining pr' = rest"
  using skipAmount_spec [of csize pr] assms
  by (auto simp: consume_body_def body_autodrain_def)

lemma consume_stream:
  assumes "remaining pr = bytes @ rest" and "length bytes = csize"
      and "cmethod = 0 \<or> cmethod = 8"
      and "cmethod = 8 \<longrightarrow> decompressDeflateRaw gunzip bytes crc usize \<noteq> None"
  shows "\<exists>pr'. consume_body gunzip UseStream cmethod crc csize usize pr
               = Inr (if cmethod = 8 then decompressDeflateRaw gunzip bytes crc usize else Some bytes, pr') \<and>
               remaining pr' = rest"
proof -
  obtain outs r s pr' where p: "pull_all 2048 (streamAmount csize) pr = ((outs, r), s, pr')"
    by (metis surj_pair)
  from pull_all_streamAmount [OF p] assms(1,2) have r: "r = None"
    and o: "concat outs = bytes" and rem: "remaining pr' = rest"
    by auto
  from o assms(2) have "0 + total outs = csize" by (simp add: total_def)
  from ExactBytes_run_exact [OF this] have e: "ExactBytesTransformStream csize outs = (outs, None)"
    by (simp add: ExactBytesTransformStream_def)
  from assms(3,4) p r o e rem show ?thesis
    by (auto simp: consume_body_def body_stream_def)
qed

text \<open>
  The operations of the reader keep its variant.
\<close>

lemma pull_kind:
  "pull viewLen s pr = (res, s', pr') \<Longrightarrow> isBYOB pr' = isBYOB pr"
  by (cases pr)
     (auto simp: base_pull_def Let_def
           split: sum.splits prod.splits ReadableStreamReadResult.splits if_splits
           dest: limitedRead_kind)

lemma pull_all_kind:
  "pull_all viewLen s pr = (res, s', pr') \<Longrightarrow> isBYOB pr' = isBYOB pr"
proof (induction viewLen s pr arbitrary: res s' pr' rule: pull_all.induct)
  case (1 viewLen s pr)
  show ?case
  proof (cases "closed s")
    case True
    with "1.prems" show ?thesis by (subst (asm) pull_all.simps) simp
  next
    case False
    obtain r s1 pr1 where p: "pull viewLen s pr = (r, s1, pr1)"
      by (cases "pull viewLen s pr")
    show ?thesis
    proof (cases r)
      case (Inl e)
      with "1.prems" False p pull_kind [OF p] show ?thesis
        by (subst (asm) pull_all.simps) auto
    next
      case (Inr out)
      with p have p': "pull viewLen s pr = (Inr out, s1, pr1)" by simp
      obtain outs rr s2 pr2 where q: "pull_all viewLen s1 pr1 = ((outs, rr), s2, pr2)"
        by (metis surj_pair)
      from "1.prems" False p' q have "pr' = pr2"
        by (subst (asm) pull_all.simps) simp
      with "1.IH" [OF False p' [symmetric] refl refl q] pull_kind [OF p'] show ?thesis by simp
    qed
  qed
qed

lemma consume_body_kind:
  "consume_body gunzip use cmethod crc csize usize pr = Inr (contents, pr') \<Longrightarrow>
     isBYOB pr' = isBYOB pr"
  by (cases use)
     (auto simp: consume_body_def body_autodrain_def body_stream_def Let_def
           split: sum.splits prod.splits if_splits option.splits BodyStream.splits
           dest: skipAmount_kind pull_all_kind)

lemma unaborted_simps [simp]:
  "unaborted signal \<Longrightarrow> aborted signal now = False"
  "unaborted signal \<Longrightarrow> cancelPartialReader signal now pr = pr"
  by (auto simp: unaborted_def)

text \<open>
  The read of one written entry, with no abort: whatever follows it in the stream, the
  reader yields \<open>readBack\<close> of the entry and is left exactly at what follows.
\<close>

lemma read_entry_written:
  assumes acc: "writeLocalFileEntry entry lfhOffset = (chunks, Inr res)"
      and rd: "readable gunzip entry"
      and use: "endsWithSlash (name entry) \<or> consumer (fst (readBack gunzip entry)) = UseStream"
      and rem: "remaining pr = concat chunks @ rest"
      and sg: "unaborted signal"
  shows "\<exists>pr'. read_entry consumer gunzip signal now pr = Yield (readBack gunzip entry) pr' \<and>
               remaining pr' = rest \<and> isBYOB pr' = isBYOB pr"
proof -
  let ?fn = "TextEncoder_encode (name entry)"
  let ?ef = "localExtraField entry"
  let ?h = "localFileHeaderStart entry (length ?fn) (Some ?ef)"
  let ?body = "entryBody entry"
  let ?m = "if isDeflate entry then 8 else 0 :: nat"
  from writeLocalFileEntry_accepted [OF acc] have n: "length ?fn < 2 ^ 16"
    and cc: "concat chunks = ?h @ ?fn @ ?ef @ ?body"
    and bl: "length ?body = entryCompressedSize entry"
    by auto
  have lh: "length ?h = 30" by (rule header_fields(1))
  then have ne: "?h \<noteq> []" by auto
  from readAmount_spec [of 30 pr] obtain pr1 where
    r1: "readAmount 30 pr = Inr (?h, pr1)" and rem1: "remaining pr1 = ?fn @ ?ef @ ?body @ rest"
    using rem cc lh by auto
  from readAmountStrict_spec [of "length ?fn" pr1] obtain pr2 where
    r2: "readAmountStrict (length ?fn) pr1 = Inr (?fn, pr2)" and rem2: "remaining pr2 = ?ef @ ?body @ rest"
    using rem1 by auto
  from readAmountStrict_spec [of "length ?ef" pr2] obtain pr3 where
    r3: "readAmountStrict (length ?ef) pr2 = Inr (?ef, pr3)" and rem3: "remaining pr3 = ?body @ rest"
    using rem2 by auto
  from readAmount_kind [OF r1] readAmountStrict_kind [OF r2] readAmountStrict_kind [OF r3]
  have k3: "isBYOB pr3 = isBYOB pr" by simp
  have m1: "length ?fn mod 65536 = length ?fn" using n by simp
  have m2: "length ?ef mod 65536 = length ?ef" using length_localExtraField(2) [of entry] by simp
  have m3: "Number (entryCompressedSize entry mod 18446744073709551616) = entryCompressedSize entry"
    using rd by (simp add: readable_def)
  have sig: "toInt32 67324752 = 67324752" by (simp add: toInt32_def)
  have dn: "TextDecoder_decode ?fn = readBackName (name entry)" by (simp add: readBackName_def)
  note hdr = header_readUint [of entry "length ?fn" "Some ?ef"]
  show ?thesis
  proof (cases "endsWithSlash (name entry)")
    case True
    from consume_autodrain [OF rem3 bl, of gunzip ?m "crcField entry" "Number (entryOriginalSize entry mod 2 ^ 64)"]
    obtain pr4 where
      c: "consume_body gunzip UseAutodrain ?m (crcField entry) (entryCompressedSize entry)
            (Number (entryOriginalSize entry mod 2 ^ 64)) pr3 = Inr (None, pr4)"
      and rem4: "remaining pr4 = rest"
      by blast
    have "read_entry consumer gunzip signal now pr = Yield (readBack gunzip entry) pr4"
      using r1 r2 r3 lh ne m1 m2 m3 sig hdr True c sg dn
      by (simp add: read_entry_def parseExtraField_localExtraField readBack_def
            endsWithSlash_readBackName)
    with rem4 consume_body_kind [OF c] k3 show ?thesis by simp
  next
    case False
    with rd have fc: "entryContents gunzip entry \<noteq> None"
      by (simp add: readable_def endsWithSlash_readBackName)
    have mm: "?m = 0 \<or> ?m = 8" by simp
    have dd: "?m = 8 \<longrightarrow> decompressDeflateRaw gunzip ?body (crcField entry)
                (Number (entryOriginalSize entry mod 2 ^ 64)) \<noteq> None"
      using fc by (cases "isDeflate entry") (simp_all add: entryContents_def)
    from consume_stream [OF rem3 bl mm dd] obtain pr4 where
      c: "consume_body gunzip UseStream ?m (crcField entry) (entryCompressedSize entry)
            (Number (entryOriginalSize entry mod 2 ^ 64)) pr3 = Inr (entryContents gunzip entry, pr4)"
      and rem4: "remaining pr4 = rest"
      by (auto simp: entryContents_def)
    from use False have u: "consumer (fst (readBack gunzip entry)) = UseStream" by simp
    have "read_entry consumer gunzip signal now pr = Yield (readBack gunzip entry) pr4"
      using r1 r2 r3 lh ne m1 m2 m3 sig hdr False c u sg dn
      by (simp add: read_entry_def parseExtraField_localExtraField readBack_def
            endsWithSlash_readBackName)
    with rem4 consume_body_kind [OF c] k3 show ?thesis by simp
  qed
qed

subsection \<open>The end of the archive\<close>

text \<open>
  After the last entry a reader of the default variant finds nothing, and stops; or
  the reader finds the header of the central directory, and stops; or, in an archive
  with no entry, the ZIP64 end of central directory record, whose signature it
  refuses.
\<close>

lemma centralHeader_first:
  "\<exists>h t. centralDirectoryFileHeaders entry fn off = h # t \<and> length h = 46 \<and>
         take 4 h = le_bytes 4 0x02014b50"
  by (cases entry; cases "isDeflate entry")
     (simp_all add: centralDirectoryFileHeaders_def crcField_def setUint16_def setUint32_def
        setBytes_blocks le_bytes_zero Let_def)

lemma ending_first:
  "length (ending tf off tb) = 98 \<and> take 4 (ending tf off tb) = le_bytes 4 0x06064b50"
  by (simp add: ending_def setUint16_def setUint32_def setBigUint64_def setBytes_blocks setBytes_length)

lemma read_entry_empty:
  "remaining pr = [] \<Longrightarrow> \<not> isBYOB pr \<Longrightarrow> unaborted signal \<Longrightarrow>
   read_entry consumer gunzip signal now pr = Stop"
  using readAmount_spec [of 30 pr] by (auto simp: read_entry_def)

lemma signature_of_take:
  "30 \<le> length bytes \<Longrightarrow> take 4 bytes = le_bytes 4 v \<Longrightarrow> v < 2 ^ 32 \<Longrightarrow>
   readUint 4 0 (take 30 bytes) = v"
proof -
  assume a: "30 \<le> length bytes" "take 4 bytes = le_bytes 4 v" "v < 2 ^ 32"
  have "take 4 (take 30 bytes) = take 4 bytes" by simp
  with a show ?thesis by (simp add: readUint_def le_val_le_bytes)
qed

lemma read_entry_central:
  assumes "30 \<le> length (remaining pr)" and "take 4 (remaining pr) = le_bytes 4 0x02014b50"
      and "unaborted signal"
  shows "read_entry consumer gunzip signal now pr = Stop"
proof -
  from readAmount_spec [of 30 pr] assms(1) obtain pr1 where
    r: "readAmount 30 pr = Inr (take 30 (remaining pr), pr1)" by blast
  have s: "readUint 4 0 (take 30 (remaining pr)) = 0x02014b50"
    using assms by (intro signature_of_take) simp_all
  from assms(1) have "remaining pr \<noteq> []" by auto
  with r s assms(1,3) show ?thesis
    by (simp add: read_entry_def toInt32_def)
qed

lemma read_entry_end_record:
  assumes "30 \<le> length (remaining pr)" and "take 4 (remaining pr) = le_bytes 4 0x06064b50"
      and "unaborted signal"
  shows "read_entry consumer gunzip signal now pr = Fail BadSignature"
proof -
  from readAmount_spec [of 30 pr] assms(1) obtain pr1 where
    r: "readAmount 30 pr = Inr (take 30 (remaining pr), pr1)" by blast
  have s: "readUint 4 0 (take 30 (remaining pr)) = 0x06064b50"
    using assms by (intro signature_of_take) simp_all
  from assms(1) have "remaining pr \<noteq> []" by auto
  with r s assms(1,3) show ?thesis
    by (simp add: read_entry_def toInt32_def)
qed

subsection \<open>A whole archive\<close>

lemma write_entries_cdfh:
  "write_entries entries omitCD cdfh tbw tfw = (chunks, Inr (cdfh', tbw', tfw')) \<Longrightarrow>
   \<exists>suffix. cdfh' = cdfh @ suffix"
proof (induction entries arbitrary: cdfh tbw tfw chunks)
  case Nil
  then show ?case by simp
next
  case (Cons e es)
  from Cons.prems obtain out res outs where
    "writeLocalFileEntry e tbw = (out, Inr res)" and
    ws: "write_entries es omitCD (if \<not> omitCD then cdfh @ cdFileHeaders res else cdfh)
        (tbw + bytesWritten res) (tfw + 1) = (outs, Inr (cdfh', tbw', tfw'))" and
    "chunks = out @ outs"
    by (auto split: prod.splits sum.splits)
  from Cons.IH [OF ws] show ?case by (auto split: if_splits)
qed

lemma write_entries_accepts:
  "\<forall>e\<in>set entries. accepted e \<Longrightarrow>
   \<exists>chunks r. write_entries entries omitCD cdfh tbw tfw = (chunks, Inr r)"
proof (induction entries arbitrary: cdfh tbw tfw)
  case Nil
  then show ?case by simp
next
  case (Cons e es)
  from Cons.prems have "accepted e" by simp
  from writeLocalFileEntry_accepts [OF this, of tbw] obtain out res where
    w: "writeLocalFileEntry e tbw = (out, Inr res)" by blast
  from Cons.prems have "\<forall>e\<in>set es. accepted e" by simp
  from Cons.IH [OF this, of "if \<not> omitCD then cdfh @ cdFileHeaders res else cdfh"
      "tbw + bytesWritten res" "tfw + 1"] w
  show ?case by auto
qed

lemma zip_write_accepts:
  "\<forall>e\<in>set entries. accepted e \<Longrightarrow> snd (zip_write entries omitCD) = None"
  using write_entries_accepts [of entries omitCD "[]" 0 0]
  by (auto simp: zip_write_def split: prod.splits)

lemma read_written_entries:
  assumes "write_entries entries omitCD cdfh tbw tfw = (chunks, Inr r)"
      and "\<forall>e\<in>set entries. readable gunzip e \<and>
             (endsWithSlash (name e) \<or> consumer (fst (readBack gunzip e)) = UseStream)"
      and "remaining pr = concat chunks @ rest"
      and "unaborted signal"
  shows "\<exists>pr' now'. remaining pr' = rest \<and> isBYOB pr' = isBYOB pr \<and>
           zip_read_loop consumer gunzip signal now pr =
             (map (readBack gunzip) entries @ fst (zip_read_loop consumer gunzip signal now' pr'),
              snd (zip_read_loop consumer gunzip signal now' pr'))"
  using assms
proof (induction entries arbitrary: cdfh tbw tfw chunks pr now)
  case Nil
  then show ?case by auto
next
  case (Cons e es)
  from Cons.prems(1) obtain out res outs where
    w: "writeLocalFileEntry e tbw = (out, Inr res)" and
    ws: "write_entries es omitCD (if \<not> omitCD then cdfh @ cdFileHeaders res else cdfh)
        (tbw + bytesWritten res) (tfw + 1) = (outs, Inr r)" and
    c: "chunks = out @ outs"
    by (auto split: prod.splits sum.splits)
  from Cons.prems(2) have re: "readable gunzip e"
    and ue: "endsWithSlash (name e) \<or> consumer (fst (readBack gunzip e)) = UseStream"
    and rest: "\<forall>e\<in>set es. readable gunzip e \<and>
             (endsWithSlash (name e) \<or> consumer (fst (readBack gunzip e)) = UseStream)"
    by auto
  from Cons.prems(3) c have rem: "remaining pr = concat out @ (concat outs @ rest)" by simp
  from read_entry_written [of e tbw out res gunzip consumer pr "concat outs @ rest" signal now,
      OF w re ue rem Cons.prems(4)] obtain pr1 where
    y: "read_entry consumer gunzip signal now pr = Yield (readBack gunzip e) pr1"
    and rem1: "remaining pr1 = concat outs @ rest" and k1: "isBYOB pr1 = isBYOB pr" by blast
  from Cons.IH [OF ws rest rem1 Cons.prems(4), of "now + 4"] obtain pr' now' where
    "remaining pr' = rest" and "isBYOB pr' = isBYOB pr1" and
    "zip_read_loop consumer gunzip signal (now + 4) pr1 =
       (map (readBack gunzip) es @ fst (zip_read_loop consumer gunzip signal now' pr'),
        snd (zip_read_loop consumer gunzip signal now' pr'))"
    by blast
  with zip_read_loop_Yield [OF y] k1 show ?case by auto
qed

text \<open>
  A reader of the default variant on a written archive, with no abort, yields
  \<open>readBack\<close> of every entry, in order, and ends without error, when the archive has
  an entry or has no central directory. (A reader of the BYOB variant does so when the
  archive has a central directory.)
\<close>

lemma zip_read_written:
  assumes w: "zip_write entries omitCD = (chunks, None)"
      and r: "\<forall>e\<in>set entries. readable gunzip e \<and>
             (endsWithSlash (name e) \<or> consumer (fst (readBack gunzip e)) = UseStream)"
      and n: "entries \<noteq> [] \<or> omitCD"
      and rem: "remaining pr = concat chunks"
      and k: "omitCD \<longrightarrow> \<not> isBYOB pr"
      and sg: "unaborted signal"
  shows "zip_read_loop consumer gunzip signal now pr = (map (readBack gunzip) entries, None)"
proof -
  from w obtain out cdfh tbw tfw where
    we: "write_entries entries omitCD [] 0 0 = (out, Inr (cdfh, tbw, tfw))"
    and ch: "chunks = (if \<not> omitCD then out @ cdfh @ [ending tfw tbw (tbw + total cdfh)] else out)"
    by (auto simp: zip_write_def split: prod.splits sum.splits if_splits)
  define rest where "rest = (if \<not> omitCD then concat (cdfh @ [ending tfw tbw (tbw + total cdfh)]) else [])"
  from rem ch have rem': "remaining pr = concat out @ rest" by (simp add: rest_def)
  from read_written_entries [OF we r rem' sg, of now] obtain pr' now' where
    p: "remaining pr' = rest" and k': "isBYOB pr' = isBYOB pr" and
    z: "zip_read_loop consumer gunzip signal now pr =
             (map (readBack gunzip) entries @ fst (zip_read_loop consumer gunzip signal now' pr'),
              snd (zip_read_loop consumer gunzip signal now' pr'))"
    by blast
  have "read_entry consumer gunzip signal now' pr' = Stop"
  proof (cases omitCD)
    case True
    with p k k' sg show ?thesis by (intro read_entry_empty) (simp_all add: rest_def)
  next
    case False
    with n obtain e es where es: "entries = e # es" by (cases entries) auto
    from we es False obtain out1 res outs where
      "writeLocalFileEntry e 0 = (out1, Inr res)" and
      ws: "write_entries es omitCD (cdFileHeaders res) (bytesWritten res) 1 = (outs, Inr (cdfh, tbw, tfw))"
      by (auto split: prod.splits sum.splits)
    from writeLocalFileEntry_accepted [OF this(1)] have
      cd: "cdFileHeaders res = centralDirectoryFileHeaders e (TextEncoder_encode (name e)) 0" by simp
    from centralHeader_first [of e "TextEncoder_encode (name e)" 0] obtain h t where
      h: "centralDirectoryFileHeaders e (TextEncoder_encode (name e)) 0 = h # t"
      and lh: "length h = 46" and sg4: "take 4 h = le_bytes 4 0x02014b50" by blast
    from write_entries_cdfh [OF ws] cd h obtain suffix where "cdfh = h # t @ suffix" by auto
    with p False lh sg4 have "30 \<le> length (remaining pr')" "take 4 (remaining pr') = le_bytes 4 0x02014b50"
      by (simp_all add: rest_def)
    then show ?thesis using sg by (rule read_entry_central)
  qed
  from zip_read_loop_Stop [OF this] z sg show ?thesis by simp
qed

subsection \<open>Well-formed entries\<close>

lemma seconds_whole: "ms mod 1000 = 0 \<Longrightarrow> seconds ms = ms div 1000"
  by (auto simp: seconds_def)

lemma toInt32_ToUint32:
  "- (2 ^ 31) \<le> s \<Longrightarrow> s < 2 ^ 31 \<Longrightarrow> toInt32 (ToUint32 s) = s"
proof (cases "0 \<le> s")
  case True
  assume "s < 2 ^ 31"
  with True have "s mod 2 ^ 32 = s" by simp
  with True \<open>s < 2 ^ 31\<close> show ?thesis by (simp add: toInt32_def ToUint32_def)
next
  case False
  assume "- (2 ^ 31) \<le> s"
  have "s mod 2 ^ 32 = (s + 2 ^ 32) mod 2 ^ 32" by simp
  also from False \<open>- (2 ^ 31) \<le> s\<close> have "\<dots> = s + 2 ^ 32"
    by (intro mod_pos_pos_trivial) simp_all
  finally have "s mod 2 ^ 32 = s + 2 ^ 32" .
  with False \<open>- (2 ^ 31) \<le> s\<close> show ?thesis by (simp add: toInt32_def ToUint32_def)
qed

lemma readBackTime_wf: "wf_time (Some ms) \<Longrightarrow> readBackTime ms = ms"
  using div_mult_mod_eq [of ms 1000]
  by (simp add: wf_time_def readBackTime_def seconds_whole toInt32_ToUint32)

lemma readBackTimes_wf: "wf_timestamps ts \<Longrightarrow> map_option readBackTimes ts = ts"
  by (cases ts)
     (auto simp: wf_timestamps_def readBackTimes_def readBackTime_wf map_option_case
           split: option.splits)

lemma decompress_member:
  "decompressDeflateRaw gunzip bytes crc usize = gunzip (gzip_member bytes crc usize)"
  by (simp add: decompressDeflateRaw_def gzip_member_def GZIP_HEADER_def setUint32_def setBytes_def)

lemma readBack_wf:
  assumes "wf_entry gunzip crc32 entry content"
  shows "readBack gunzip entry = expected entry content" and "readable gunzip entry"
proof (atomize (full), cases entry)
  case (WriteDirectory nm ts)
  with assms show "readBack gunzip entry = expected entry content \<and> readable gunzip entry"
    by (simp add: wf_entry_def readBack_def expected_def readable_def readBackTimes_wf
          readBackName_wf entryCompressedSize_def)
next
  case (WriteFile nm ts b)
  with assms show "readBack gunzip entry = expected entry content \<and> readable gunzip entry"
    by (cases b)
       (simp_all add: wf_entry_def readBack_def expected_def readable_def readBackTimes_wf
          readBackName_wf entryOriginalSize_def entryCompressedSize_def crcField_def
          entryContents_def entryBody_def isDeflate_def ToUint32_def bodyLength_def
          decompress_member)
qed

subsection \<open>Claims about writing and reading back\<close>

text \<open>
  C1, as amended. Take a sequence of write entries, each with the original content of
  its body, all well-formed, that \<^verbatim>\<open>write\<close> accepts and that is not empty unless the
  central directory is omitted. Then \<^verbatim>\<open>read\<close> on the byte stream that \<^verbatim>\<open>write\<close>
  produced, with no abort and with a consumer that opens the body of every file, ends
  without error and yields as many entries, in the same order; each has the type, the
  name, the timestamps and, for a file, the original size, the written size and the
  CRC of the write entry, and the body delivers the original content.
\<close>

theorem C1_round_trip:
  assumes "\<forall>(entry, content)\<in>set files. wf_entry gunzip crc32 entry content"
      and "zip_write (map fst files) omitCentralDirectory = (chunks, None)"
      and "files \<noteq> [] \<or> omitCentralDirectory"
      and "unaborted signal"
  shows "zip_read (\<lambda>_. UseStream) gunzip signal (DefaultStream chunks) =
           (map (\<lambda>(entry, content). expected entry content) files, None)"
proof -
  have wf: "readBack gunzip e = expected e c \<and> readable gunzip e" if "(e, c) \<in> set files" for e c
    using that assms(1) readBack_wf [of gunzip crc32 e c] by auto
  then have r: "\<forall>e\<in>set (map fst files). readable gunzip e \<and>
      (endsWithSlash (name e) \<or> (\<lambda>_. UseStream) (fst (readBack gunzip e)) = UseStream)"
    by auto
  have rem: "remaining (fromStream (DefaultStream chunks)) = concat chunks" by simp
  have k: "omitCentralDirectory \<longrightarrow> \<not> isBYOB (fromStream (DefaultStream chunks))" by simp
  from assms(3) have n: "map fst files \<noteq> [] \<or> omitCentralDirectory" by simp
  from wf have "map (readBack gunzip) (map fst files) =
      map (\<lambda>(entry, content). expected entry content) files"
    by auto
  with zip_read_written [OF assms(2) r n rem k assms(4)] show ?thesis by (simp add: zip_read_def)
qed

theorem C1_round_trip_witness:
  "snd (zip_write
     [WriteDirectory ''d/'' (Some \<lparr>modifyTime = Some 5000, accessTime = None, createTime = Some (- 1000)\<rparr>),
      WriteFile ''a'' None (Uncompressed 3 7 [[1, 2], [3]]),
      WriteFile ''z'' None (Deflate 2 2 9 [[8, 8]])] False) = None \<and>
   zip_read (\<lambda>_. UseStream) (\<lambda>bytes. Some (take 2 (drop 10 bytes))) None
     (DefaultStream (fst (zip_write
       [WriteDirectory ''d/'' (Some \<lparr>modifyTime = Some 5000, accessTime = None, createTime = Some (- 1000)\<rparr>),
        WriteFile ''a'' None (Uncompressed 3 7 [[1, 2], [3]]),
        WriteFile ''z'' None (Deflate 2 2 9 [[8, 8]])] False))) =
     ([(ReadDirectory ''d/'' (Some \<lparr>modifyTime = Some 5000, accessTime = None, createTime = Some (- 1000)\<rparr>), None),
       (ReadFile ''a'' None 3 3 7, Some [1, 2, 3]),
       (ReadFile ''z'' None 2 2 9, Some [8, 8])], None)"
proof -
  let ?d = "WriteDirectory ''d/'' (Some \<lparr>modifyTime = Some 5000, accessTime = None, createTime = Some (- 1000)\<rparr>)"
  let ?a = "WriteFile ''a'' None (Uncompressed 3 7 [[1, 2], [3]])"
  let ?z = "WriteFile ''z'' None (Deflate 2 2 9 [[8, 8]])"
  let ?files = "[(?d, []), (?a, [1, 2, 3]), (?z, [8, 8])] :: (WriteEntry \<times> byte list) list"
  let ?g = "\<lambda>bytes :: byte list. Some (take 2 (drop 10 bytes))"
  let ?crc = "\<lambda>content :: byte list. 9 :: nat"
  have a: "\<forall>e\<in>set (map fst ?files). accepted e"
    by (simp add: accepted_def TextEncoder_encode_def total_def bodyLength_def)
  have s: "snd (zip_write (map fst ?files) False) = None"
    using a by (rule zip_write_accepts)
  then have w: "zip_write (map fst ?files) False = (fst (zip_write (map fst ?files) False), None)"
    by (simp add: prod_eq_iff)
  have wf: "\<forall>(entry, content)\<in>set ?files. wf_entry ?g ?crc entry content"
    by (simp add: wf_entry_def wf_timestamps_def wf_time_def wf_name_def endsWithSlash_def
          bodyLength_def gzip_member_def TextEncoder_encode_def)
  have n: "?files \<noteq> [] \<or> False" by simp
  have u: "unaborted None" by (simp add: unaborted_def)
  from C1_round_trip [OF wf w n u] s show ?thesis
    by (simp add: expected_def bodyLength_def)
qed

text \<open>
  C1 as stated fails for the empty sequence: \<^verbatim>\<open>write\<close> accepts it and, unless the
  central directory is omitted, produces the 98 bytes of the three end records. They
  begin with the signature \<open>0x06064b50\<close>, which is neither that of a local file header
  nor that of a central directory header, so \<^verbatim>\<open>read\<close> throws its bad signature
  error instead of yielding no entry.
\<close>

theorem C1_round_trip_counterexample:
  "snd (zip_write [] False) = None \<and>
   map unat (take 4 (concat (fst (zip_write [] False)))) = [80, 75, 6, 6] \<and>
   zip_read (\<lambda>_. UseStream) (\<lambda>_. None) None (DefaultStream (fst (zip_write [] False))) =
     ([], Some BadSignature)"
proof -
  have w: "zip_write [] False = ([ending 0 0 0], None)"
    by (simp add: zip_write_def total_def)
  have r: "remaining (fromStream (DefaultStream [ending 0 0 0])) = ending 0 0 0" by simp
  have u: "unaborted None" by (simp add: unaborted_def)
  have "read_entry (\<lambda>_. UseStream) (\<lambda>_. None) None 1 (fromStream (DefaultStream [ending 0 0 0])) =
          Fail BadSignature"
    by (rule read_entry_end_record) (simp_all only: r ending_first u)
  then have "zip_read (\<lambda>_. UseStream) (\<lambda>_. None) None (DefaultStream [ending 0 0 0]) =
          ([], Some BadSignature)"
    unfolding zip_read_def by (rule zip_read_loop_Fail)
  moreover have "map unat (take 4 (ending 0 0 0)) = [80, 75, 6, 6]"
    by (simp add: ending_first le_bytes_numeral)
  ultimately show ?thesis by (simp add: w)
qed

text \<open>
  C10, as amended. For every directory write entry whose name the writer accepts, the
  writer emits a header with compression method 0 and a zero CRC-32 field, the name,
  and an extra field that begins with the ZIP64 record (tag 1, length 16) holding
  original size 0 and compressed size 0, and no body. From these bytes the reader,
  with no abort, yields the entry and is left exactly behind them (the body it drains
  has no byte), when the name does not begin with a byte order mark and the timestamps
  are whole seconds that fit 32 signed bits: the directory entry written, whatever the
  consumer does, if the name ends in a slash; otherwise, for a consumer that opens the
  body, a file entry of that name with both sizes and the CRC zero and an empty body.
\<close>

theorem C10_directory_entry:
  assumes "length (TextEncoder_encode nm) < 2 ^ 16"
  shows "\<exists>header ef res.
     writeLocalFileEntry (WriteDirectory nm ts) lfhOffset =
       ([header, TextEncoder_encode nm, ef], Inr res) \<and>
     length header = 30 \<and>
     getUint16 8 header = Inr 0 \<and>
     getUint32 14 header = Inr 0 \<and>
     getUint16 0 ef = Inr 0x0001 \<and> getUint16 2 ef = Inr 16 \<and>
     getBigUint64 4 ef = Inr 0 \<and> getBigUint64 12 ef = Inr 0 \<and>
     (\<forall>pr rest.
        remaining pr = header @ TextEncoder_encode nm @ ef @ rest \<and>
        unaborted signal \<and> wf_name nm \<and> wf_timestamps ts \<longrightarrow>
        (endsWithSlash nm \<longrightarrow>
           (\<exists>pr'. read_entry consumer gunzip signal now pr =
                    Yield (ReadDirectory nm ts, None) pr' \<and>
                  remaining pr' = rest)) \<and>
        (\<not> endsWithSlash nm \<and> consumer (ReadFile nm ts 0 0 0) = UseStream \<longrightarrow>
           (\<exists>pr'. read_entry consumer gunzip signal now pr =
                    Yield (ReadFile nm ts 0 0 0, Some []) pr' \<and>
                  remaining pr' = rest)))"
proof -
  let ?e = "WriteDirectory nm ts"
  let ?ef = "localExtraField ?e"
  let ?h = "localFileHeaderStart ?e (length (TextEncoder_encode nm)) (Some ?ef)"
  let ?res = "\<lparr>bytesWritten = length ?h + length (TextEncoder_encode nm) + length ?ef,
               cdFileHeaders = centralDirectoryFileHeaders ?e (TextEncoder_encode nm) lfhOffset\<rparr>"
  have w: "writeLocalFileEntry ?e lfhOffset = ([?h, TextEncoder_encode nm, ?ef], Inr ?res)"
    using assms by (simp add: writeLocalFileEntry_def createExtraField_None Let_def)
  have h: "length ?h = 30" "getUint16 8 ?h = Inr 0" "getUint32 14 ?h = Inr 0"
    by (simp_all add: header_fields getUint16_def getUint32_def isDeflate_def crcField_def)
  have rd: "readable gunzip ?e"
    by (simp add: readable_def entryCompressedSize_def entryContents_def isDeflate_def)
  have rb: "(endsWithSlash nm \<longrightarrow>
           (\<exists>pr'. read_entry consumer gunzip signal now pr =
                    Yield (ReadDirectory nm ts, None) pr' \<and>
                  remaining pr' = rest)) \<and>
        (\<not> endsWithSlash nm \<and> consumer (ReadFile nm ts 0 0 0) = UseStream \<longrightarrow>
           (\<exists>pr'. read_entry consumer gunzip signal now pr =
                    Yield (ReadFile nm ts 0 0 0, Some []) pr' \<and>
                  remaining pr' = rest))"
    if rem: "remaining pr = ?h @ TextEncoder_encode nm @ ?ef @ rest"
      and sg: "unaborted signal" and wn: "wf_name nm" and wt: "wf_timestamps ts"
    for pr rest
  proof -
    from rem have rem': "remaining pr = concat [?h, TextEncoder_encode nm, ?ef] @ rest" by simp
    have rbk: "readBack gunzip ?e =
        (if endsWithSlash nm then (ReadDirectory nm ts, None)
         else (ReadFile nm ts 0 0 0, Some []))"
      using wn wt
      by (simp add: readBack_def readBackName_wf readBackTimes_wf entryOriginalSize_def
            entryCompressedSize_def crcField_def entryContents_def isDeflate_def entryBody_def)
    have yield: "\<exists>pr'. read_entry consumer gunzip signal now pr = Yield (readBack gunzip ?e) pr' \<and>
        remaining pr' = rest"
      if "endsWithSlash (name ?e) \<or> consumer (fst (readBack gunzip ?e)) = UseStream"
      using read_entry_written [of ?e lfhOffset "[?h, TextEncoder_encode nm, ?ef]" ?res gunzip
          consumer pr rest signal now, OF w rd that rem' sg]
      by blast
    show ?thesis
    proof (cases "endsWithSlash nm")
      case True
      with yield rbk show ?thesis by simp
    next
      case False
      with yield rbk show ?thesis by simp
    qed
  qed
  from w h directory_extra_field [of nm ts] rb show ?thesis by blast
qed

theorem C10_directory_entry_witness:
  "length (TextEncoder_encode ''d/'') < 2 ^ 16 \<and> endsWithSlash ''d/'' \<and> wf_name ''d/'' \<and>
   wf_timestamps (Some \<lparr>modifyTime = Some 5000, accessTime = None, createTime = None\<rparr>) \<and>
   unaborted None \<and>
   map (map unat) (fst (writeLocalFileEntry
      (WriteDirectory ''d/'' (Some \<lparr>modifyTime = Some 5000, accessTime = None, createTime = None\<rparr>)) 0)) =
     [[80, 75, 3, 4, 45, 0, 0, 0, 0, 0, 0, 0, 0, 0, 0, 0, 0, 0,
       255, 255, 255, 255, 255, 255, 255, 255, 2, 0, 29, 0],
      [100, 47],
      [1, 0, 16, 0, 0, 0, 0, 0, 0, 0, 0, 0, 0, 0, 0, 0, 0, 0, 0, 0,
       85, 84, 5, 0, 1, 5, 0, 0, 0]] \<and>
   (\<exists>pr'. read_entry (\<lambda>_. UseNeither) (\<lambda>_. None) None 1
            (DefaultPartialReader (fst (writeLocalFileEntry
               (WriteDirectory ''d/'' (Some \<lparr>modifyTime = Some 5000, accessTime = None, createTime = None\<rparr>)) 0))
               None) =
          Yield (ReadDirectory ''d/'' (Some \<lparr>modifyTime = Some 5000, accessTime = None, createTime = None\<rparr>),
                 None) pr' \<and>
        remaining pr' = []) \<and>
   length (TextEncoder_encode ''d'') < 2 ^ 16 \<and> \<not> endsWithSlash ''d'' \<and> wf_name ''d'' \<and>
   wf_timestamps None \<and>
   (\<exists>pr'. read_entry (\<lambda>_. UseStream) (\<lambda>_. None) None 1
            (DefaultPartialReader (fst (writeLocalFileEntry (WriteDirectory ''d'' None) 0)) None) =
          Yield (ReadFile ''d'' None 0 0 0, Some []) pr' \<and>
        remaining pr' = [])"
proof -
  let ?ts = "Some \<lparr>modifyTime = Some 5000, accessTime = None, createTime = None\<rparr>"
  have n: "length (TextEncoder_encode ''d/'') < 2 ^ 16"
    by (simp add: TextEncoder_encode_def)
  have s: "endsWithSlash ''d/''" by (simp add: endsWithSlash_def)
  have wn: "wf_name ''d/''" by (simp add: wf_name_def TextEncoder_encode_def)
  have wt: "wf_timestamps ?ts" by (simp add: wf_timestamps_def wf_time_def)
  have u: "unaborted None" by (simp add: unaborted_def)
  have b: "map (map unat) (fst (writeLocalFileEntry (WriteDirectory ''d/'' ?ts) 0)) =
     [[80, 75, 3, 4, 45, 0, 0, 0, 0, 0, 0, 0, 0, 0, 0, 0, 0, 0,
       255, 255, 255, 255, 255, 255, 255, 255, 2, 0, 29, 0],
      [100, 47],
      [1, 0, 16, 0, 0, 0, 0, 0, 0, 0, 0, 0, 0, 0, 0, 0, 0, 0, 0, 0,
       85, 84, 5, 0, 1, 5, 0, 0, 0]]"
    by (simp add: writeLocalFileEntry_def createExtraField_None localExtraField_def
        localFileHeaderStart_closed timesRecord_def entryOriginalSize_def entryCompressedSize_def
        isDeflate_def crcField_def TextEncoder_encode_def ToUint32_def seconds_def
        le_bytes_numeral Let_def)
  from C10_directory_entry [OF n, of ?ts 0 None "\<lambda>_. UseNeither" "\<lambda>_. None" 1]
  obtain header ef res where
    w: "writeLocalFileEntry (WriteDirectory ''d/'' ?ts) 0 =
          ([header, TextEncoder_encode ''d/'', ef], Inr res)"
    and r: "\<forall>pr rest.
        remaining pr = header @ TextEncoder_encode ''d/'' @ ef @ rest \<and>
        unaborted None \<and> wf_name ''d/'' \<and> wf_timestamps ?ts \<longrightarrow>
        (endsWithSlash ''d/'' \<longrightarrow>
           (\<exists>pr'. read_entry (\<lambda>_. UseNeither) (\<lambda>_. None) None 1 pr =
                    Yield (ReadDirectory ''d/'' ?ts, None) pr' \<and>
                  remaining pr' = rest))"
    by blast
  have "remaining (DefaultPartialReader [header, TextEncoder_encode ''d/'', ef] None) =
          header @ TextEncoder_encode ''d/'' @ ef @ []"
    by simp
  with r s wn wt u have "\<exists>pr'. read_entry (\<lambda>_. UseNeither) (\<lambda>_. None) None 1
            (DefaultPartialReader [header, TextEncoder_encode ''d/'', ef] None) =
          Yield (ReadDirectory ''d/'' ?ts, None) pr' \<and> remaining pr' = []"
    by blast
  with w have dir: "\<exists>pr'. read_entry (\<lambda>_. UseNeither) (\<lambda>_. None) None 1
            (DefaultPartialReader (fst (writeLocalFileEntry (WriteDirectory ''d/'' ?ts) 0)) None) =
          Yield (ReadDirectory ''d/'' ?ts, None) pr' \<and> remaining pr' = []"
    by simp
  have n2: "length (TextEncoder_encode ''d'') < 2 ^ 16"
    by (simp add: TextEncoder_encode_def)
  have s2: "\<not> endsWithSlash ''d''" by (simp add: endsWithSlash_def)
  have wn2: "wf_name ''d''" by (simp add: wf_name_def TextEncoder_encode_def)
  have wt2: "wf_timestamps None" by (simp add: wf_timestamps_def)
  from C10_directory_entry [OF n2, of None 0 None "\<lambda>_. UseStream" "\<lambda>_. None" 1]
  obtain header2 ef2 res2 where
    w2: "writeLocalFileEntry (WriteDirectory ''d'' None) 0 =
          ([header2, TextEncoder_encode ''d'', ef2], Inr res2)"
    and r2: "\<forall>pr rest.
        remaining pr = header2 @ TextEncoder_encode ''d'' @ ef2 @ rest \<and>
        unaborted None \<and> wf_name ''d'' \<and> wf_timestamps None \<longrightarrow>
        (\<not> endsWithSlash ''d'' \<and> (\<lambda>_. UseStream) (ReadFile ''d'' None 0 0 0) = UseStream \<longrightarrow>
           (\<exists>pr'. read_entry (\<lambda>_. UseStream) (\<lambda>_. None) None 1 pr =
                    Yield (ReadFile ''d'' None 0 0 0, Some []) pr' \<and>
                  remaining pr' = rest))"
    by blast
  have "remaining (DefaultPartialReader [header2, TextEncoder_encode ''d'', ef2] None) =
          header2 @ TextEncoder_encode ''d'' @ ef2 @ []"
    by simp
  with r2 s2 wn2 wt2 u have "\<exists>pr'. read_entry (\<lambda>_. UseStream) (\<lambda>_. None) None 1
            (DefaultPartialReader [header2, TextEncoder_encode ''d'', ef2] None) =
          Yield (ReadFile ''d'' None 0 0 0, Some []) pr' \<and> remaining pr' = []"
    by blast
  with w2 have fl: "\<exists>pr'. read_entry (\<lambda>_. UseStream) (\<lambda>_. None) None 1
            (DefaultPartialReader (fst (writeLocalFileEntry (WriteDirectory ''d'' None) 0)) None) =
          Yield (ReadFile ''d'' None 0 0 0, Some []) pr' \<and> remaining pr' = []"
    by simp
  from n s wn wt u b dir n2 s2 wn2 wt2 fl show ?thesis by blast
qed

text \<open>
  C10 as stated fails for a directory write entry whose name does not end in a slash:
  the writer accepts it, and the reader, which tells a directory by its name only,
  yields a file entry of size 0 and CRC 0 with an empty body.
\<close>

theorem C10_directory_entry_counterexample:
  "snd (zip_write [WriteDirectory ''d'' None] False) = None \<and>
   zip_read (\<lambda>_. UseStream) (\<lambda>_. None) None
     (DefaultStream (fst (zip_write [WriteDirectory ''d'' None] False))) =
     ([(ReadFile ''d'' None 0 0 0, Some [])], None)"
proof -
  let ?es = "[WriteDirectory ''d'' None]"
  have a: "\<forall>e\<in>set ?es. accepted e"
    by (simp add: accepted_def TextEncoder_encode_def)
  have s: "snd (zip_write ?es False) = None"
    using a by (rule zip_write_accepts)
  then have w: "zip_write ?es False = (fst (zip_write ?es False), None)"
    by (simp add: prod_eq_iff)
  have nb: "readBackName ''d'' = ''d''"
    by (simp add: readBackName_eq TextEncoder_encode_def)
  have r: "\<forall>e\<in>set ?es. readable (\<lambda>_. None) e \<and>
      (endsWithSlash (name e) \<or> (\<lambda>_. UseStream) (fst (readBack (\<lambda>_. None) e)) = UseStream)"
    by (simp add: readable_def entryCompressedSize_def entryContents_def isDeflate_def)
  have rem: "remaining (fromStream (DefaultStream (fst (zip_write ?es False)))) =
          concat (fst (zip_write ?es False))" by simp
  have k: "False \<longrightarrow> \<not> isBYOB (fromStream (DefaultStream (fst (zip_write ?es False))))" by simp
  have n: "?es \<noteq> [] \<or> False" by simp
  have u: "unaborted None" by (simp add: unaborted_def)
  from zip_read_written [where now = 1, OF w r n rem k u] s nb show ?thesis
    by (simp add: zip_read_def readBack_def endsWithSlash_def entryOriginalSize_def
          entryCompressedSize_def crcField_def entryContents_def isDeflate_def entryBody_def)
qed

end
